theory Spec2Isabelle
  imports Main "HOL-Library.Monad_Syntax" "HOL-Library.Char_ord" "HOL-Library.List_Lexorder"
begin

section \<open>The rrdtool plugin of collectd: data model\<close>

text \<open>
  The development follows \<^verbatim>\<open>src/rrdtool.c\<close>. C integers (\<^verbatim>\<open>int\<close>, \<^verbatim>\<open>time_t\<close>) are
  modelled by \<^typ>\<open>int\<close>. The differences of time stamps are read on the mathematical
  integers (the time stamps that the plugin stores and the clock are not negative, so
  these differences stay in the range of \<^verbatim>\<open>time_t\<close>); the products of \<^verbatim>\<open>rrd_init\<close> are
  checked against the range of \<^verbatim>\<open>int\<close>. C strings are \<^typ>\<open>string\<close>s (without
  the terminating NUL). Every call that can fail for lack of memory takes its outcome
  from an environment record, so that each error return of the source is a branch of the
  model. A result \<open>None\<close> of a modelled function means that the C function does not
  return: its behaviour is undefined (a dereferenced invalid pointer, a signed overflow),
  a loop does not end, or a failed \<^verbatim>\<open>assert\<close> aborts the program.
\<close>

datatype rrd_error = ENCODE_OVERFLOW | OUT_OF_ORDER | ALLOC_FAILED | NOT_FOUND | INIT_FAILED

text \<open>The C functions return \<^verbatim>\<open>0\<close> for success and a non-zero status otherwise.\<close>

type_synonym status = "rrd_error + unit"

abbreviation success :: status where
  "success \<equiv> Inr ()"

datatype rrd_flags = FLAG_NONE | FLAG_QUEUED

text \<open>
  \<^verbatim>\<open>struct rrd_cache_s\<close>. The array \<^verbatim>\<open>values\<close> (here \<open>rc_values\<close>, since \<open>values\<close> is a
  keyword) is \<open>None\<close> when the pointer is NULL and otherwise holds the \<^verbatim>\<open>values_num\<close>
  tokens stored so far; \<^verbatim>\<open>values_num\<close> is the length of that list.
\<close>

record rrd_cache_t =
  rc_values :: "string list option"
  first_value :: int
  last_value :: int
  flags :: rrd_flags

definition values_num :: "rrd_cache_t \<Rightarrow> int" where
  "values_num rc = (case rc_values rc of None \<Rightarrow> 0 | Some vs \<Rightarrow> int (length vs))"

datatype rrd_queue_dir_t = QUEUE_INSERT_FRONT | QUEUE_INSERT_BACK

text \<open>
  \<^verbatim>\<open>struct rrd_queue_s\<close>: a node of the singly linked queue; addresses are naturals, and
  the field \<^verbatim>\<open>next\<close> is \<open>qnext\<close> here, since \<open>next\<close> is a keyword.
\<close>

record rrd_queue_t =
  filename :: string
  qnext :: "nat option"

text \<open>
  The globals guarded by \<^verbatim>\<open>queue_lock\<close>: the nodes allocated at present, \<^verbatim>\<open>queue_head\<close>
  and \<^verbatim>\<open>queue_tail\<close>. \<open>queue_brk\<close> is the allocator: \<^verbatim>\<open>malloc\<close> hands out the address
  \<open>queue_brk\<close> and moves it on.
\<close>

record rrd_queue =
  queue_heap :: "nat \<rightharpoonup> rrd_queue_t"
  queue_head :: "nat option"
  queue_tail :: "nat option"
  queue_brk :: nat

text \<open>
  The configuration globals, written by \<^verbatim>\<open>rrd_config\<close> and \<^verbatim>\<open>rrd_init\<close> and read-only
  afterwards. \<open>datadir = None\<close> is the NULL pointer.
\<close>

record rrd_config =
  datadir :: "string option"
  cache_timeout :: int
  cache_flush_timeout :: int
  stepsize :: int
  heartbeat :: int

text \<open>The fields of \<^verbatim>\<open>value_list_t\<close> that the plugin reads to name a file.\<close>

record value_list_t =
  vl_time :: int
  vl_host :: string
  vl_plugin :: string
  vl_plugin_instance :: string
  vl_type :: string
  vl_type_instance :: string

section \<open>The sample encoder: \<^verbatim>\<open>value_list_to_filename\<close>\<close>

text \<open>
  Modelled from the spec: \<^verbatim>\<open>ssnprintf\<close> (declared in \<^verbatim>\<open>common.h\<close>, not part of the
  sources at hand) formats into a bounded buffer and returns the length the complete
  text has, as \<^verbatim>\<open>snprintf\<close> does. One formatting step of \<^verbatim>\<open>value_list_to_filename\<close>
  is \<open>fmt_step\<close>: the buffer written so far has length \<open>offset\<close>; the step fails when
  \<^verbatim>\<open>(status < 1) || (status >= buffer_len - offset)\<close>.
\<close>

definition fmt_step :: "int \<Rightarrow> string \<Rightarrow> string \<Rightarrow> rrd_error + string" where
  "fmt_step buffer_len buffer piece =
     (let offset = int (length buffer); status = int (length piece)
      in if status < 1 \<or> status \<ge> buffer_len - offset then Inl ENCODE_OVERFLOW
         else Inr (buffer @ piece))"

definition value_list_to_filename ::
  "rrd_config \<Rightarrow> int \<Rightarrow> value_list_t \<Rightarrow> rrd_error + string" where
  "value_list_to_filename cfg buffer_len vl =
     (case (case datadir cfg of
              None \<Rightarrow> Inr []
            | Some d \<Rightarrow> fmt_step buffer_len [] (d @ ''/'')) of
        Inl e \<Rightarrow> Inl e
      | Inr b1 \<Rightarrow>
         (case fmt_step buffer_len b1 (vl_host vl @ ''/'') of
            Inl e \<Rightarrow> Inl e
          | Inr b2 \<Rightarrow>
             (case fmt_step buffer_len b2
                     (if length (vl_plugin_instance vl) > 0
                      then vl_plugin vl @ ''-'' @ vl_plugin_instance vl @ ''/''
                      else vl_plugin vl @ ''/'') of
                Inl e \<Rightarrow> Inl e
              | Inr b3 \<Rightarrow>
                 fmt_step buffer_len b3
                     (if length (vl_type_instance vl) > 0
                      then vl_type vl @ ''-'' @ vl_type_instance vl @ ''.rrd''
                      else vl_type vl @ ''.rrd''))))"

text \<open>The file name as the specification writes it.\<close>

definition spec_filename :: "rrd_config \<Rightarrow> value_list_t \<Rightarrow> string" where
  "spec_filename cfg vl =
     (case datadir cfg of None \<Rightarrow> [] | Some d \<Rightarrow> d @ ''/'')
     @ vl_host vl @ ''/''
     @ vl_plugin vl @ (if vl_plugin_instance vl = [] then [] else ''-'' @ vl_plugin_instance vl)
     @ ''/''
     @ vl_type vl @ (if vl_type_instance vl = [] then [] else ''-'' @ vl_type_instance vl)
     @ ''.rrd''"

section \<open>Initialisation: \<^verbatim>\<open>rrd_init\<close>\<close>


text \<open>
  The globals guarded by \<^verbatim>\<open>cache_lock\<close>, and the queue. The tree \<^verbatim>\<open>cache\<close> is an
  association list in the order of its keys (the order in which the iterator of the
  tree visits them).
\<close>

record rrd_state =
  cache :: "(string \<times> rrd_cache_t) list"
  cache_flush_last :: int
  queue :: rrd_queue

text \<open>The queue globals as the C file initialises them.\<close>

definition queue_init :: rrd_queue where
  "queue_init = \<lparr>queue_heap = Map.empty, queue_head = None, queue_tail = None, queue_brk = 0\<rparr>"



section \<open>The cache tree\<close>

text \<open>
  Modelled from the spec: the AVL tree of \<^verbatim>\<open>utils_avltree.h\<close> is not part of the sources
  at hand. It is a mapping with unique keys, iterated in the order of \<^verbatim>\<open>strcmp\<close>: here an
  association list kept in the order of the keys. \<open>c_avl_get\<close> finds the value stored
  under a key, \<open>c_avl_insert\<close> adds a key that is not stored yet (and leaves a stored one
  alone), \<open>c_avl_remove\<close> deletes a key. \<open>rc_store\<close> is the assignment through the pointer
  \<^verbatim>\<open>rc\<close> that the tree holds for a key: the tree keeps its shape, the entry changes.
\<close>

definition c_avl_get :: "(string \<times> 'v) list \<Rightarrow> string \<Rightarrow> 'v option" where
  "c_avl_get t k = map_of t k"

fun c_avl_insert :: "string \<Rightarrow> 'v \<Rightarrow> (string \<times> 'v) list \<Rightarrow> (string \<times> 'v) list" where
  "c_avl_insert k v [] = [(k, v)]"
| "c_avl_insert k v ((k', v') # t) =
     (if k < k' then (k, v) # (k', v') # t
      else if k = k' then (k', v') # t
      else (k', v') # c_avl_insert k v t)"

definition c_avl_remove :: "string \<Rightarrow> (string \<times> 'v) list \<Rightarrow> (string \<times> 'v) list" where
  "c_avl_remove k t = filter (\<lambda>kv. fst kv \<noteq> k) t"

definition rc_store :: "string \<Rightarrow> 'v \<Rightarrow> (string \<times> 'v) list \<Rightarrow> (string \<times> 'v) list" where
  "rc_store k v t = map (\<lambda>kv. if fst kv = k then (k, v) else kv) t"

section \<open>The environment of one call\<close>

text \<open>
  What a call reads from outside the plugin: the clock (\<open>time_now\<close> is the value of
  \<^verbatim>\<open>time (NULL)\<close> in \<^verbatim>\<open>rrd_cache_flush\<close> and \<^verbatim>\<open>rrd_cache_flush_identifier\<close>, \<open>time_check\<close> the
  one in \<^verbatim>\<open>rrd_cache_insert\<close>), and whether each allocation succeeds: in
  \<^verbatim>\<open>rrd_cache_insert\<close> the \<^verbatim>\<open>malloc\<close> of a new entry, the \<^verbatim>\<open>realloc\<close> of \<^verbatim>\<open>values\<close>, the
  \<^verbatim>\<open>strdup\<close> of the token and of the key; in \<^verbatim>\<open>rrd_queue_cache_entry\<close> the \<^verbatim>\<open>malloc\<close> of
  the node and the \<^verbatim>\<open>strdup\<close> of its file name; in \<^verbatim>\<open>rrd_cache_flush\<close> the \<^verbatim>\<open>realloc\<close> of
  \<^verbatim>\<open>keys\<close> (the last three once for each file name they are called for).
\<close>

record rrd_env =
  time_now :: int
  time_check :: int
  malloc_rc_ok :: bool
  realloc_values_ok :: bool
  strdup_value_ok :: bool
  strdup_key_ok :: bool
  queue_malloc_ok :: "string \<Rightarrow> bool"
  queue_strdup_ok :: "string \<Rightarrow> bool"
  realloc_keys_ok :: "string \<Rightarrow> bool"

section \<open>The dispatch queue\<close>

text \<open>
  \<^verbatim>\<open>rrd_queue_cache_entry\<close> (lines 338 to 377): a new node at the head or behind the node
  \<^verbatim>\<open>queue_tail\<close>.
\<close>

definition rrd_queue_cache_entry ::
  "rrd_env \<Rightarrow> string \<Rightarrow> rrd_queue_dir_t \<Rightarrow> rrd_queue \<Rightarrow> (status \<times> rrd_queue) option" where
  "rrd_queue_cache_entry env fname dir q =
     (if \<not> queue_malloc_ok env fname then Some (Inl ALLOC_FAILED, q)
      else if \<not> queue_strdup_ok env fname then Some (Inl ALLOC_FAILED, q)
      else
        let queue_entry = queue_brk q;
            h = (queue_heap q)(queue_entry \<mapsto> \<lparr>filename = fname, qnext = None\<rparr>);
            q1 = q\<lparr>queue_heap := h, queue_brk := Suc queue_entry\<rparr>
        in case dir of
             QUEUE_INSERT_FRONT \<Rightarrow>
               Some (success,
                 q1\<lparr>queue_heap := h(queue_entry \<mapsto> \<lparr>filename = fname, qnext = queue_head q\<rparr>),
                    queue_head := Some queue_entry,
                    queue_tail := (if queue_tail q = None then Some queue_entry
                                   else queue_tail q)\<rparr>)
           | QUEUE_INSERT_BACK \<Rightarrow>
              (case queue_tail q of
                 None \<Rightarrow>
                   Some (success, q1\<lparr>queue_head := Some queue_entry,
                                     queue_tail := Some queue_entry\<rparr>)
               | Some t \<Rightarrow>
                  (case h t of
                     None \<Rightarrow> None
                   | Some n \<Rightarrow>
                       Some (success, q1\<lparr>queue_heap := h(t \<mapsto> n\<lparr>qnext := Some queue_entry\<rparr>),
                                         queue_tail := Some queue_entry\<rparr>))))"

text \<open>
  The loop of \<^verbatim>\<open>rrd_queue_move_to_front\<close> (lines 387 to 392): from \<open>this\<close>, with \<open>prev\<close>
  the node before it,
  to the first node that carries the file name. It returns \<open>this\<close> and \<open>prev\<close> as they are
  when the loop ends.
\<close>

partial_function (option) queue_scan ::
  "(nat \<rightharpoonup> rrd_queue_t) \<Rightarrow> string \<Rightarrow> nat option \<Rightarrow> nat option
     \<Rightarrow> (nat option \<times> nat option) option" where
  "queue_scan h fname this prev =
     (case this of
        None \<Rightarrow> Some (None, prev)
      | Some a \<Rightarrow>
         (case h a of
            None \<Rightarrow> None
          | Some n \<Rightarrow>
              if filename n = fname then Some (Some a, prev)
              else queue_scan h fname (qnext n) (Some a)))"

declare queue_scan.simps [code]

definition rrd_queue_move_to_front :: "string \<Rightarrow> rrd_queue \<Rightarrow> (status \<times> rrd_queue) option" where
  "rrd_queue_move_to_front fname q =
     (case queue_scan (queue_heap q) fname (queue_head q) None of
        None \<Rightarrow> None
      | Some (Some this, Some prev) \<Rightarrow>
         (case queue_heap q this of
            None \<Rightarrow> None
          | Some tn \<Rightarrow>
             (case queue_heap q prev of
                None \<Rightarrow> None
              | Some pn \<Rightarrow>
                  let h1 = (queue_heap q)(prev \<mapsto> pn\<lparr>qnext := qnext tn\<rparr>)
                  in (case h1 this of
                        None \<Rightarrow> None
                      | Some tn1 \<Rightarrow>
                          Some (success,
                            q\<lparr>queue_heap := h1(this \<mapsto> tn1\<lparr>qnext := queue_head q\<rparr>),
                              queue_head := Some this\<rparr>))))
      | Some _ \<Rightarrow> Some (success, q))"

text \<open>
  The writer thread \<^verbatim>\<open>rrd_queue_thread\<close>, first critical section (under \<^verbatim>\<open>queue_lock\<close>,
  lines 278 to 297):
  with an empty queue the thread waits, or leaves its loop when \<open>do_shutdown\<close> is set;
  otherwise it unlinks the head node.
\<close>

datatype dequeue_result = QUEUE_WAIT | QUEUE_EXIT | QUEUE_ENTRY nat

definition rrd_queue_dequeue :: "bool \<Rightarrow> rrd_queue \<Rightarrow> (dequeue_result \<times> rrd_queue) option" where
  "rrd_queue_dequeue do_shutdown q =
     (case queue_head q of
        None \<Rightarrow> Some (if do_shutdown then QUEUE_EXIT else QUEUE_WAIT, q)
      | Some queue_entry \<Rightarrow>
          if queue_head q = queue_tail q
          then Some (QUEUE_ENTRY queue_entry, q\<lparr>queue_head := None, queue_tail := None\<rparr>)
          else (case queue_heap q queue_entry of
                  None \<Rightarrow> None
                | Some n \<Rightarrow> Some (QUEUE_ENTRY queue_entry, q\<lparr>queue_head := qnext n\<rparr>)))"

text \<open>The end of an iteration of the writer (line 326): \<^verbatim>\<open>sfree (queue_entry)\<close>.\<close>

definition rrd_queue_free :: "nat \<Rightarrow> rrd_queue \<Rightarrow> rrd_queue" where
  "rrd_queue_free queue_entry q = q\<lparr>queue_heap := (queue_heap q)(queue_entry := None)\<rparr>"

section \<open>The cache\<close>

text \<open>
  The writer thread, second critical section (under \<^verbatim>\<open>cache_lock\<close>, lines 301 to 312):
  it takes the values
  of the entry and leaves the entry empty. The source does not test the result of
  \<^verbatim>\<open>c_avl_get\<close>: without an entry \<^verbatim>\<open>cache_entry\<close> is not initialised. The result is the
  pair \<^verbatim>\<open>values\<close>, \<^verbatim>\<open>values_num\<close> handed to \<^verbatim>\<open>srrd_update\<close>, and the state.
\<close>

definition rrd_queue_thread_steal ::
  "string \<Rightarrow> rrd_state \<Rightarrow> ((string list option \<times> int) \<times> rrd_state) option" where
  "rrd_queue_thread_steal fname st =
     (case c_avl_get (cache st) fname of
        None \<Rightarrow> None
      | Some cache_entry \<Rightarrow>
          Some ((rc_values cache_entry, values_num cache_entry),
                st\<lparr>cache := rc_store fname (cache_entry\<lparr>rc_values := None, flags := FLAG_NONE\<rparr>)
                                (cache st)\<rparr>))"

text \<open>
  The loop of \<^verbatim>\<open>rrd_cache_flush\<close> over the iterator of the tree (lines 424 to 454), each
  entry of which is visited once; \<open>keys\<close> collects the
  entries to delete. The result \<open>None\<close> for the keys is the return after a failed
  \<^verbatim>\<open>realloc\<close>.
\<close>

fun rrd_cache_flush_iter ::
  "rrd_env \<Rightarrow> int \<Rightarrow> int \<Rightarrow> (string \<times> rrd_cache_t) list \<Rightarrow> string list \<Rightarrow> rrd_state
     \<Rightarrow> (string list option \<times> rrd_state) option" where
  "rrd_cache_flush_iter env timeout now [] keys st = Some (Some keys, st)"
| "rrd_cache_flush_iter env timeout now ((key, rc) # rest) keys st =
     (if flags rc = FLAG_QUEUED then rrd_cache_flush_iter env timeout now rest keys st
      else if now - first_value rc < timeout
      then rrd_cache_flush_iter env timeout now rest keys st
      else if values_num rc > 0 then
        (case rrd_queue_cache_entry env key QUEUE_INSERT_BACK (queue st) of
           None \<Rightarrow> None
         | Some (r, q) \<Rightarrow>
             rrd_cache_flush_iter env timeout now rest keys
               (if r = success
                then st\<lparr>queue := q,
                        cache := rc_store key (rc\<lparr>flags := FLAG_QUEUED\<rparr>) (cache st)\<rparr>
                else st\<lparr>queue := q\<rparr>))
      else if realloc_keys_ok env key
      then rrd_cache_flush_iter env timeout now rest (keys @ [key]) st
      else Some (None, st))"

text \<open>
  The second loop of \<^verbatim>\<open>rrd_cache_flush\<close> (lines 457 to 471) removes the collected keys.
  A key that is not found is passed over. For a removed entry the two assertions are
  checked: \<^verbatim>\<open>assert (rc->values == NULL)\<close> and \<^verbatim>\<open>assert (rc->values_num == 0)\<close>. Where
  one fails the program is aborted, and the result is \<open>None\<close>.
\<close>

fun rrd_cache_flush_remove ::
  "string list \<Rightarrow> (string \<times> rrd_cache_t) list \<Rightarrow> (string \<times> rrd_cache_t) list option" where
  "rrd_cache_flush_remove [] c = Some c"
| "rrd_cache_flush_remove (k # ks) c =
     (case c_avl_get c k of
        None \<Rightarrow> rrd_cache_flush_remove ks c
      | Some rc \<Rightarrow>
          if rc_values rc \<noteq> None then None
          else if values_num rc \<noteq> 0 then None
          else rrd_cache_flush_remove ks (c_avl_remove k c))"

text \<open>\<^verbatim>\<open>rrd_cache_flush\<close>: the two loops, then \<^verbatim>\<open>cache_flush_last = now\<close>.\<close>

definition rrd_cache_flush :: "rrd_env \<Rightarrow> int \<Rightarrow> rrd_state \<Rightarrow> rrd_state option" where
  "rrd_cache_flush env timeout st =
     (let now = time_now env
      in case rrd_cache_flush_iter env timeout now (cache st) [] st of
           None \<Rightarrow> None
         | Some (None, st1) \<Rightarrow> Some st1
         | Some (Some keys, st1) \<Rightarrow>
            (case rrd_cache_flush_remove keys (cache st1) of
               None \<Rightarrow> None
             | Some c \<Rightarrow> Some (st1\<lparr>cache := c, cache_flush_last := now\<rparr>)))"

text \<open>
  \<^verbatim>\<open>rrd_cache_flush_identifier\<close>. The key is built by \<^verbatim>\<open>snprintf\<close> into 2048 bytes, so it
  is cut after 2047 characters.
\<close>

definition rrd_flush_key :: "rrd_config \<Rightarrow> string \<Rightarrow> string" where
  "rrd_flush_key cfg ident =
     take 2047 (case datadir cfg of
                  None \<Rightarrow> ident @ ''.rrd''
                | Some d \<Rightarrow> d @ ''/'' @ ident @ ''.rrd'')"

definition rrd_cache_flush_identifier ::
  "rrd_config \<Rightarrow> rrd_env \<Rightarrow> int \<Rightarrow> string option \<Rightarrow> rrd_state \<Rightarrow> (status \<times> rrd_state) option" where
  "rrd_cache_flush_identifier cfg env timeout identifier st =
     (case identifier of
        None \<Rightarrow>
          (case rrd_cache_flush env timeout st of
             None \<Rightarrow> None
           | Some st' \<Rightarrow> Some (success, st'))
      | Some ident \<Rightarrow>
          let now = time_now env;
              key = rrd_flush_key cfg ident
          in case c_avl_get (cache st) key of
               None \<Rightarrow> Some (Inl NOT_FOUND, st)
             | Some rc \<Rightarrow>
                 if flags rc = FLAG_QUEUED then
                   (case rrd_queue_move_to_front key (queue st) of
                      None \<Rightarrow> None
                    | Some (r, q) \<Rightarrow> Some (r, st\<lparr>queue := q\<rparr>))
                 else if now - first_value rc < timeout then Some (success, st)
                 else if values_num rc > 0 then
                   (case rrd_queue_cache_entry env key QUEUE_INSERT_FRONT (queue st) of
                      None \<Rightarrow> None
                    | Some (r, q) \<Rightarrow>
                        Some (r, if r = success
                                 then st\<lparr>queue := q,
                                         cache := rc_store key (rc\<lparr>flags := FLAG_QUEUED\<rparr>)
                                                    (cache st)\<rparr>
                                 else st\<lparr>queue := q\<rparr>))
                 else Some (success, st))"

text \<open>
  The append of \<^verbatim>\<open>rrd_cache_insert\<close> (lines 576 to 584), after the \<^verbatim>\<open>realloc\<close> has
  succeeded: the token is stored when its \<^verbatim>\<open>strdup\<close> succeeds, \<^verbatim>\<open>first_value\<close> is set
  when the entry then holds one token, \<^verbatim>\<open>last_value\<close> is set.
\<close>

definition rrd_cache_append :: "rrd_env \<Rightarrow> rrd_cache_t \<Rightarrow> string \<Rightarrow> int \<Rightarrow> rrd_cache_t" where
  "rrd_cache_append env rc val value_time =
     (let vs = (case rc_values rc of None \<Rightarrow> [] | Some xs \<Rightarrow> xs);
          rc1 = rc\<lparr>rc_values := Some (if strdup_value_ok env then vs @ [val] else vs)\<rparr>;
          rc2 = (if values_num rc1 = 1 then rc1\<lparr>first_value := value_time\<rparr> else rc1)
      in rc2\<lparr>last_value := value_time\<rparr>)"

text \<open>The entry that \<^verbatim>\<open>rrd_cache_insert\<close> allocates for a file name without one.\<close>

definition rrd_cache_new :: rrd_cache_t where
  "rrd_cache_new = \<lparr>rc_values = None, first_value = 0, last_value = 0, flags = FLAG_NONE\<rparr>"

text \<open>
  \<^verbatim>\<open>rrd_cache_insert\<close> up to the test for the sweep (lines 531 to 627): the outcome is
  the error with which the function returns, or the state that reaches line 629.
\<close>

definition rrd_cache_insert_entry ::
  "rrd_config \<Rightarrow> rrd_env \<Rightarrow> string \<Rightarrow> string \<Rightarrow> int \<Rightarrow> rrd_state
     \<Rightarrow> (status \<times> rrd_state) option" where
  "rrd_cache_insert_entry cfg env fname val value_time st =
     (let found = c_avl_get (cache st) fname;
          new_rc = (found = None)
      in if new_rc \<and> \<not> malloc_rc_ok env then Some (Inl ALLOC_FAILED, st)
         else
           let rc = (case found of Some r \<Rightarrow> r | None \<Rightarrow> rrd_cache_new)
           in if last_value rc \<ge> value_time then Some (Inl OUT_OF_ORDER, st)
              else if \<not> realloc_values_ok env
              then Some (Inl ALLOC_FAILED, st\<lparr>cache := c_avl_remove fname (cache st)\<rparr>)
              else
                let rc3 = rrd_cache_append env rc val value_time
                in if new_rc \<and> \<not> strdup_key_ok env then Some (Inl ALLOC_FAILED, st)
                   else
                     let st1 = st\<lparr>cache := (if new_rc then c_avl_insert fname rc3 (cache st)
                                              else rc_store fname rc3 (cache st))\<rparr>
                     in if last_value rc3 - first_value rc3 \<ge> cache_timeout cfg
                           \<and> flags rc3 \<noteq> FLAG_QUEUED
                        then (case rrd_queue_cache_entry env fname QUEUE_INSERT_BACK (queue st1) of
                                None \<Rightarrow> None
                              | Some (r, q) \<Rightarrow>
                                  Some (success,
                                    if r = success
                                    then st1\<lparr>queue := q,
                                             cache := rc_store fname (rc3\<lparr>flags := FLAG_QUEUED\<rparr>)
                                                        (cache st1)\<rparr>
                                    else st1\<lparr>queue := q\<rparr>))
                        else Some (success, st1))"

text \<open>\<^verbatim>\<open>rrd_cache_insert\<close>: the part above, then the sweep when it is due.\<close>

definition rrd_cache_insert ::
  "rrd_config \<Rightarrow> rrd_env \<Rightarrow> string \<Rightarrow> string \<Rightarrow> int \<Rightarrow> rrd_state
     \<Rightarrow> (status \<times> rrd_state) option" where
  "rrd_cache_insert cfg env fname val value_time st =
     (case rrd_cache_insert_entry cfg env fname val value_time st of
        None \<Rightarrow> None
      | Some (Inl e, st1) \<Rightarrow> Some (Inl e, st1)
      | Some (Inr u, st1) \<Rightarrow>
          if cache_timeout cfg > 0
             \<and> time_check env - cache_flush_last st1 > cache_flush_timeout cfg
          then (case rrd_cache_flush env (cache_flush_timeout cfg) st1 of
                  None \<Rightarrow> None
                | Some st2 \<Rightarrow> Some (success, st2))
          else Some (success, st1))"

section \<open>The operations registered with the daemon\<close>

text \<open>
  \<^verbatim>\<open>rrd_flush\<close>. The plugin state is \<open>None\<close> while the pointer \<^verbatim>\<open>cache\<close> is NULL (before
  \<^verbatim>\<open>rrd_init\<close>, and after the writer thread has gone). The status of
  \<^verbatim>\<open>rrd_cache_flush_identifier\<close> is not used.
\<close>

definition rrd_flush ::
  "rrd_config \<Rightarrow> rrd_env \<Rightarrow> int \<Rightarrow> string option \<Rightarrow> rrd_state option
     \<Rightarrow> (status \<times> rrd_state option) option" where
  "rrd_flush cfg env timeout identifier g =
     (case g of
        None \<Rightarrow> Some (success, None)
      | Some st \<Rightarrow>
         (case rrd_cache_flush_identifier cfg env timeout identifier st of
            None \<Rightarrow> None
          | Some (r, st') \<Rightarrow> Some (success, Some st')))"

text \<open>
  \<^verbatim>\<open>rrd_shutdown\<close>, up to the wait for the writer: the sweep with the timeout \<open>-1\<close>;
  the second component is the new value of \<^verbatim>\<open>do_shutdown\<close>.
\<close>

definition rrd_shutdown :: "rrd_env \<Rightarrow> rrd_state \<Rightarrow> (rrd_state \<times> bool) option" where
  "rrd_shutdown env st =
     (case rrd_cache_flush env (- 1) st of
        None \<Rightarrow> None
      | Some st' \<Rightarrow> Some (st', True))"

section \<open>Notions for stating the properties\<close>

text \<open>
  \<open>queue_seg h p xs e\<close>: in the heap \<open>h\<close> the \<^verbatim>\<open>next\<close> pointers lead from \<open>p\<close> to \<open>e\<close> through
  the nodes \<open>xs\<close>, each given by its address and its file name. The queue holds \<open>xs\<close>
  (\<open>queue_is\<close>) when they lead from \<^verbatim>\<open>queue_head\<close> to NULL, \<^verbatim>\<open>queue_tail\<close> is the last node
  (NULL for the empty queue) and the allocator has handed out all these addresses.
\<close>

fun queue_seg ::
  "(nat \<rightharpoonup> rrd_queue_t) \<Rightarrow> nat option \<Rightarrow> (nat \<times> string) list \<Rightarrow> nat option \<Rightarrow> bool" where
  "queue_seg h p [] e = (p = e)"
| "queue_seg h p (x # xs) e =
     (p = Some (fst x) \<and>
      (case h (fst x) of
         None \<Rightarrow> False
       | Some n \<Rightarrow> filename n = snd x \<and> queue_seg h (qnext n) xs e))"

definition queue_is :: "rrd_queue \<Rightarrow> (nat \<times> string) list \<Rightarrow> bool" where
  "queue_is q xs \<longleftrightarrow>
     queue_seg (queue_heap q) (queue_head q) xs None
     \<and> queue_tail q = (if xs = [] then None else Some (fst (last xs)))
     \<and> (\<forall>x \<in> set xs. fst x < queue_brk q)"

text \<open>
  \<open>queue_upto_tail q pre suf\<close>: the nodes of the queue are \<open>pre @ suf\<close>, and \<^verbatim>\<open>queue_tail\<close>
  is the last node of \<open>pre\<close>. With \<open>suf = []\<close> this is \<open>queue_is q pre\<close>; otherwise
  \<^verbatim>\<open>queue_tail\<close> points into the middle of the queue.
\<close>

definition queue_upto_tail ::
  "rrd_queue \<Rightarrow> (nat \<times> string) list \<Rightarrow> (nat \<times> string) list \<Rightarrow> bool" where
  "queue_upto_tail q pre suf \<longleftrightarrow>
     queue_seg (queue_heap q) (queue_head q) (pre @ suf) None
     \<and> queue_tail q = (if pre = [] then None else Some (fst (last pre)))
     \<and> (pre = [] \<longrightarrow> suf = [])
     \<and> (\<forall>x \<in> set (pre @ suf). fst x < queue_brk q)"

text \<open>\<^verbatim>\<open>queue_tail\<close> is NULL or the address of an allocated node.\<close>

definition queue_tail_ok :: "rrd_queue \<Rightarrow> bool" where
  "queue_tail_ok q \<longleftrightarrow>
     (case queue_tail q of None \<Rightarrow> True | Some t \<Rightarrow> queue_heap q t \<noteq> None)"

text \<open>No allocation of the call fails.\<close>

definition allocs_ok :: "rrd_env \<Rightarrow> bool" where
  "allocs_ok env \<longleftrightarrow>
     malloc_rc_ok env \<and> realloc_values_ok env \<and> strdup_value_ok env \<and> strdup_key_ok env
     \<and> (\<forall>f. queue_malloc_ok env f \<and> queue_strdup_ok env f \<and> realloc_keys_ok env f)"

text \<open>The keys of the tree are unique.\<close>

definition cache_ok :: "rrd_state \<Rightarrow> bool" where
  "cache_ok st \<longleftrightarrow> distinct (map fst (cache st))"

text \<open>
  No entry outside the queue holds an array \<^verbatim>\<open>values\<close> that is allocated and empty. (Such
  an array is what a failed \<^verbatim>\<open>strdup\<close> of the token leaves in an entry without values; the
  assertion of the sweep fails on it.)
\<close>

definition no_empty_array :: "(string \<times> rrd_cache_t) list \<Rightarrow> bool" where
  "no_empty_array c \<longleftrightarrow>
     (\<forall>kv \<in> set c. flags (snd kv) \<noteq> FLAG_QUEUED \<longrightarrow> rc_values (snd kv) \<noteq> Some [])"

text \<open>
  The entries that a sweep does not skip (first two tests of the loop of
  \<^verbatim>\<open>rrd_cache_flush\<close>); of these, the ones with values are queued and the others deleted.
\<close>

definition flush_due :: "int \<Rightarrow> int \<Rightarrow> rrd_cache_t \<Rightarrow> bool" where
  "flush_due timeout now rc \<longleftrightarrow> flags rc \<noteq> FLAG_QUEUED \<and> \<not> now - first_value rc < timeout"

definition flush_queues :: "int \<Rightarrow> int \<Rightarrow> rrd_cache_t \<Rightarrow> bool" where
  "flush_queues timeout now rc \<longleftrightarrow> flush_due timeout now rc \<and> values_num rc > 0"

definition flush_deletes :: "int \<Rightarrow> int \<Rightarrow> rrd_cache_t \<Rightarrow> bool" where
  "flush_deletes timeout now rc \<longleftrightarrow> flush_due timeout now rc \<and> \<not> values_num rc > 0"

definition flush_mark :: "int \<Rightarrow> int \<Rightarrow> string \<times> rrd_cache_t \<Rightarrow> string \<times> rrd_cache_t" where
  "flush_mark timeout now kv =
     (if flush_queues timeout now (snd kv) then (fst kv, (snd kv)\<lparr>flags := FLAG_QUEUED\<rparr>) else kv)"

text \<open>
  The effect on the list of nodes that the specification gives for promoting a file
  name: the first node with that name moves to the head, the others keep their order.
\<close>

definition spec_promote :: "string \<Rightarrow> (nat \<times> string) list \<Rightarrow> (nat \<times> string) list" where
  "spec_promote f xs =
     (case find (\<lambda>x. snd x = f) xs of None \<Rightarrow> xs | Some x \<Rightarrow> x # remove1 x xs)"

section \<open>Concrete configurations, environments and states\<close>

text \<open>
  The inputs at which the theorems below are evaluated: caching disabled and enabled
  (the values that \<^verbatim>\<open>rrd_init\<close> leaves), an environment in which every allocation
  succeeds and the clock shows \<open>now\<close>, one in which the \<^verbatim>\<open>realloc\<close> of
  \<^verbatim>\<open>rrd_cache_insert\<close> fails, one in which the \<^verbatim>\<open>malloc\<close> of \<^verbatim>\<open>rrd_queue_cache_entry\<close>
  fails, one in which the \<^verbatim>\<open>strdup\<close> of the value fails, and the state that \<^verbatim>\<open>rrd_init\<close>
  leaves at time 0.
\<close>

definition cfg_nocache :: rrd_config where
  "cfg_nocache = \<lparr>datadir = None, cache_timeout = 0, cache_flush_timeout = 0,
                   stepsize = 0, heartbeat = 0\<rparr>"

definition cfg_cached :: rrd_config where
  "cfg_cached = \<lparr>datadir = None, cache_timeout = 10, cache_flush_timeout = 100,
                  stepsize = 0, heartbeat = 0\<rparr>"

definition env_ok :: "int \<Rightarrow> rrd_env" where
  "env_ok now = \<lparr>time_now = now, time_check = now, malloc_rc_ok = True,
                  realloc_values_ok = True, strdup_value_ok = True, strdup_key_ok = True,
                  queue_malloc_ok = (\<lambda>f. True), queue_strdup_ok = (\<lambda>f. True),
                  realloc_keys_ok = (\<lambda>f. True)\<rparr>"

definition env_realloc_fails :: "int \<Rightarrow> rrd_env" where
  "env_realloc_fails now = (env_ok now)\<lparr>realloc_values_ok := False\<rparr>"

definition env_queue_fails :: "int \<Rightarrow> rrd_env" where
  "env_queue_fails now = (env_ok now)\<lparr>queue_malloc_ok := (\<lambda>f. False)\<rparr>"

definition env_strdup_fails :: "int \<Rightarrow> rrd_env" where
  "env_strdup_fails now = (env_ok now)\<lparr>strdup_value_ok := False\<rparr>"

definition st_init :: rrd_state where
  "st_init = \<lparr>cache = [], cache_flush_last = 0, queue = queue_init\<rparr>"

text \<open>
  States with one and with two entries, a state whose entry holds an allocated array
  without values, a state whose entry is dated ahead of the clock, a queue of two nodes,
  and a view of the queue globals at given addresses.
\<close>

definition st_one :: rrd_state where
  "st_one = \<lparr>cache = [(''h/f/f.rrd'', \<lparr>rc_values = Some [''100:0''], first_value = 100,
                                    last_value = 100, flags = FLAG_NONE\<rparr>)],
             cache_flush_last = 100, queue = queue_init\<rparr>"

definition st_two :: rrd_state where
  "st_two = \<lparr>cache = [(''h/a/a.rrd'', \<lparr>rc_values = Some [''100:0''], first_value = 100,
                                    last_value = 100, flags = FLAG_NONE\<rparr>),
                      (''h/b/b.rrd'', \<lparr>rc_values = None, first_value = 50,
                                    last_value = 60, flags = FLAG_NONE\<rparr>)],
             cache_flush_last = 100, queue = queue_init\<rparr>"

definition st_empty_array :: rrd_state where
  "st_empty_array = \<lparr>cache = [(''h/a/a.rrd'', \<lparr>rc_values = Some [], first_value = 0,
                                    last_value = 5, flags = FLAG_NONE\<rparr>)],
             cache_flush_last = 0, queue = queue_init\<rparr>"

definition st_future :: rrd_state where
  "st_future = \<lparr>cache = [(''h/g/g.rrd'', \<lparr>rc_values = Some [''200:0''], first_value = 200,
                                    last_value = 200, flags = FLAG_NONE\<rparr>)],
             cache_flush_last = 0, queue = queue_init\<rparr>"

definition queue_ab :: rrd_queue where
  "queue_ab = \<lparr>queue_heap = [0 \<mapsto> \<lparr>filename = ''h/a/a.rrd'', qnext = Some 1\<rparr>,
                              1 \<mapsto> \<lparr>filename = ''h/b/b.rrd'', qnext = None\<rparr>],
               queue_head = Some 0, queue_tail = Some 1, queue_brk = 2\<rparr>"

definition queue_view ::
  "rrd_queue \<Rightarrow> nat list \<Rightarrow> nat option \<times> nat option \<times> rrd_queue_t option list" where
  "queue_view q as = (queue_head q, queue_tail q, map (queue_heap q) as)"

text \<open>
  The states of one run, with caching disabled: a sample for \<^verbatim>\<open>h/a/a.rrd\<close>, a sample for
  \<^verbatim>\<open>h/b/b.rrd\<close>, a flush of the identifier \<^verbatim>\<open>h/b/b\<close>, the writer taking the head of the queue
  and the values of its entry and freeing the node, a second sample for \<^verbatim>\<open>h/a/a.rrd\<close>, and
  the shutdown.
\<close>

definition bug_s1 :: rrd_state where
  "bug_s1 = snd (the (rrd_cache_insert cfg_nocache (env_ok 1) ''h/a/a.rrd'' ''1:0'' 1 st_init))"
definition bug_s2 :: rrd_state where
  "bug_s2 = snd (the (rrd_cache_insert cfg_nocache (env_ok 1) ''h/b/b.rrd'' ''1:0'' 1 bug_s1))"
definition bug_s3 :: rrd_state where
  "bug_s3 = snd (the (rrd_cache_flush_identifier cfg_nocache (env_ok 1) 0 (Some ''h/b/b'') bug_s2))"
definition bug_s4 :: rrd_state where
  "bug_s4 = bug_s3\<lparr>queue := snd (the (rrd_queue_dequeue False (queue bug_s3)))\<rparr>"
definition bug_s5 :: rrd_state where
  "bug_s5 = (snd (the (rrd_queue_thread_steal ''h/b/b.rrd'' bug_s4)))
              \<lparr>queue := rrd_queue_free 1 (queue bug_s4)\<rparr>"
definition bug_s6 :: rrd_state where
  "bug_s6 = snd (the (rrd_cache_insert cfg_nocache (env_ok 2) ''h/a/a.rrd'' ''2:0'' 2 bug_s5))"
definition bug_s7 :: rrd_state where
  "bug_s7 = fst (the (rrd_shutdown (env_ok 3) bug_s6))"

section \<open>Lemmas on the encoder\<close>

lemma fmt_step_Inr:
  "fmt_step n b p = Inr r \<longleftrightarrow> p \<noteq> [] \<and> int (length b + length p) < n \<and> r = b @ p"
  by (cases p) (auto simp: fmt_step_def Let_def)

lemma fmt_step_Inl:
  "fmt_step n b p = Inl e \<longleftrightarrow> (p = [] \<or> n \<le> int (length b + length p)) \<and> e = ENCODE_OVERFLOW"
  by (cases p) (auto simp: fmt_step_def Let_def)

lemma value_list_to_filename_eq:
  "value_list_to_filename cfg n vl =
     (if int (length (spec_filename cfg vl)) < n then Inr (spec_filename cfg vl)
      else Inl ENCODE_OVERFLOW)"
  unfolding value_list_to_filename_def spec_filename_def
  by (auto split: sum.splits option.splits simp: fmt_step_Inr fmt_step_Inl)

section \<open>Lemmas on the tree as an association list\<close>

lemma c_avl_get_rc_store:
  "c_avl_get (rc_store k v t) k' = (if k' = k \<and> c_avl_get t k \<noteq> None then Some v else c_avl_get t k')"
  by (induction t) (auto simp: c_avl_get_def rc_store_def)

lemma keys_rc_store: "map fst (rc_store k v t) = map fst t"
  by (induction t) (auto simp: rc_store_def)

lemma keys_set_rc_store: "fst ` set (rc_store k v c) = fst ` set c"
  using keys_rc_store [of k v c] by (metis list.set_map)

lemma keys_c_avl_insert:
  "fst ` set (c_avl_insert k v t) = insert k (fst ` set t)"
proof (induction t)
  case Nil
  show ?case by simp
next
  case (Cons x t)
  obtain k' v' where x: "x = (k', v')" by (cases x)
  show ?case using Cons by (cases "k < k'"; cases "k = k'") (auto simp: x)
qed

lemma c_avl_get_insert:
  "c_avl_get t k = None \<Longrightarrow> c_avl_get (c_avl_insert k v t) k' = (if k' = k then Some v else c_avl_get t k')"
  by (induction t) (auto simp: c_avl_get_def)

lemma distinct_c_avl_insert:
  "k \<notin> fst ` set t \<Longrightarrow> distinct (map fst t) \<Longrightarrow> distinct (map fst (c_avl_insert k v t))"
  by (induction t) (auto simp: keys_c_avl_insert)

lemma c_avl_get_remove:
  "c_avl_get (c_avl_remove k t) k' = (if k' = k then None else c_avl_get t k')"
  by (induction t) (auto simp: c_avl_get_def c_avl_remove_def)

lemma rc_store_notin: "k \<notin> fst ` set t \<Longrightarrow> rc_store k v t = t"
  by (induction t) (auto simp: rc_store_def)

lemma rc_store_distinct_mid:
  "k \<notin> fst ` set pre \<Longrightarrow> k \<notin> fst ` set post \<Longrightarrow>
   rc_store k v (pre @ (k, w) # post) = pre @ (k, v) # post"
  using rc_store_notin[of k pre v] rc_store_notin[of k post v]
  by (simp add: rc_store_def)

lemma fold_c_avl_remove:
  "fold c_avl_remove ks t = filter (\<lambda>kv. fst kv \<notin> set ks) t"
  by (induction ks arbitrary: t) (auto simp: c_avl_remove_def conj_commute)

lemma c_avl_get_None_keys: "c_avl_get c k = None \<longleftrightarrow> k \<notin> fst ` set c"
  by (simp add: c_avl_get_def map_of_eq_None_iff)

lemma distinct_fst_eq:
  "distinct (map fst es) \<Longrightarrow> x \<in> set es \<Longrightarrow> y \<in> set es \<Longrightarrow> fst x = fst y \<Longrightarrow> x = y"
  by (meson distinct_map inj_onD)

lemma distinct_set_singleton: "distinct xs \<Longrightarrow> set xs = {x} \<Longrightarrow> xs = [x]"
proof (cases xs)
  case Nil
  assume "set xs = {x}" with Nil show ?thesis by simp
next
  case (Cons y l)
  assume d: "distinct xs" and s: "set xs = {x}"
  from s Cons have y: "y = x" by auto
  from s Cons have "set l \<subseteq> {x}" by auto
  moreover from d Cons y have "x \<notin> set l" by simp
  ultimately have "l = []" by (cases l) auto
  with Cons y show ?thesis by simp
qed

section \<open>Lemmas on the linked nodes of the queue\<close>

lemma queue_seg_append:
  "queue_seg h p (xs @ ys) e \<longleftrightarrow> (\<exists>m. queue_seg h p xs m \<and> queue_seg h m ys e)"
  by (induction xs arbitrary: p) (auto split: option.splits)

lemma queue_seg_upd_notin:
  "a \<notin> fst ` set xs \<Longrightarrow> queue_seg (h(a := v)) p xs e = queue_seg h p xs e"
  by (induction xs arbitrary: p) (auto split: option.splits)

lemma queue_seg_NoneD: "queue_seg h None xs e \<Longrightarrow> xs = [] \<and> e = None"
  by (cases xs) auto

lemma queue_seg_unique:
  "queue_seg h p xs None \<Longrightarrow> queue_seg h p ys None \<Longrightarrow> xs = ys"
proof (induction xs arbitrary: p ys)
  case Nil
  then show ?case by (cases ys) auto
next
  case (Cons x xs)
  then show ?case
    by (cases ys) (auto split: option.splits simp: prod_eq_iff)
qed

lemma queue_seg_next_notin:
  assumes "h a = Some n" and "queue_seg h (qnext n) xs None"
  shows "a \<notin> fst ` set xs"
proof
  assume "a \<in> fst ` set xs"
  then obtain f where "(a, f) \<in> set xs" by auto
  then obtain pre suf where xs: "xs = pre @ (a, f) # suf"
    by (auto simp: in_set_conv_decomp)
  with assms have "queue_seg h (qnext n) suf None"
    by (auto simp: queue_seg_append)
  with assms(2) have "xs = suf" by (rule queue_seg_unique)
  with xs show False by simp
qed

lemma queue_seg_distinct:
  "queue_seg h p xs None \<Longrightarrow> distinct (map fst xs)"
proof (induction xs arbitrary: p)
  case Nil
  show ?case by simp
next
  case (Cons x xs)
  then show ?case
    by (auto split: option.splits dest: queue_seg_next_notin)
qed

lemma queue_is_tail_ok: "queue_is q xs \<Longrightarrow> queue_tail_ok q"
proof (cases xs rule: rev_cases)
  case Nil
  assume "queue_is q xs"
  with Nil show ?thesis by (simp add: queue_is_def queue_tail_ok_def)
next
  case (snoc ys y)
  assume "queue_is q xs"
  with snoc show ?thesis
    by (auto simp: queue_is_def queue_tail_ok_def queue_seg_append split: option.splits)
qed

lemma queue_is_upto: "queue_is q xs \<longleftrightarrow> queue_upto_tail q xs []"
  by (auto simp: queue_is_def queue_upto_tail_def)

lemma queue_upto_tail_ok: "queue_upto_tail q pre suf \<Longrightarrow> queue_tail_ok q"
proof (cases pre rule: rev_cases)
  case Nil
  assume "queue_upto_tail q pre suf"
  with Nil show ?thesis by (simp add: queue_upto_tail_def queue_tail_ok_def)
next
  case (snoc ys y)
  assume "queue_upto_tail q pre suf"
  with snoc show ?thesis
    by (auto simp: queue_upto_tail_def queue_tail_ok_def queue_seg_append split: option.splits)
qed

lemma enqueue_tail_ok:
  assumes "queue_tail_ok q"
  shows "\<exists>r q'. rrd_queue_cache_entry env f dir q = Some (r, q') \<and> queue_tail_ok q'
           \<and> (r = success \<longleftrightarrow> queue_malloc_ok env f \<and> queue_strdup_ok env f)"
  using assms
  by (cases dir)
     (auto simp: rrd_queue_cache_entry_def queue_tail_ok_def Let_def split: option.splits)

lemma enqueue_back_is:
  assumes q: "queue_is q xs" and ok: "queue_malloc_ok env f" "queue_strdup_ok env f"
  shows "\<exists>q'. rrd_queue_cache_entry env f QUEUE_INSERT_BACK q = Some (success, q')
           \<and> queue_is q' (xs @ [(queue_brk q, f)])"
proof (cases xs rule: rev_cases)
  case Nil
  with q ok show ?thesis
    by (simp add: rrd_queue_cache_entry_def queue_is_def Let_def)
next
  case (snoc ys y)
  obtain t tf where y: "y = (t, tf)" by (cases y)
  let ?h = "queue_heap q" and ?b = "queue_brk q"
  from q snoc y have tail: "queue_tail q = Some t" and lt: "\<forall>x\<in>set xs. fst x < ?b"
    and seg: "queue_seg ?h (queue_head q) (ys @ [(t, tf)]) None"
    by (auto simp: queue_is_def)
  from seg obtain n where ys: "queue_seg ?h (queue_head q) ys (Some t)"
    and n: "?h t = Some n" "filename n = tf" "qnext n = None"
    by (auto simp: queue_seg_append split: option.splits)
  from seg have "distinct (map fst (ys @ [(t, tf)]))" by (rule queue_seg_distinct)
  then have t_notin: "t \<notin> fst ` set ys" by auto
  from lt snoc y have b_notin: "?b \<notin> fst ` set ys" and tb: "t \<noteq> ?b" by auto
  let ?h' = "(?h(?b \<mapsto> \<lparr>filename = f, qnext = None\<rparr>))(t \<mapsto> n\<lparr>qnext := Some ?b\<rparr>)"
  from ys t_notin b_notin have "queue_seg ?h' (queue_head q) ys (Some t)"
    by (simp add: queue_seg_upd_notin)
  moreover from n tb have "queue_seg ?h' (Some t) [(t, tf), (?b, f)] None"
    by simp
  ultimately have "queue_seg ?h' (queue_head q) (ys @ [(t, tf), (?b, f)]) None"
    by (auto simp: queue_seg_append)
  with tail n tb lt snoc y ok show ?thesis
    by (auto simp: rrd_queue_cache_entry_def queue_is_def Let_def less_Suc_eq)
qed

lemma enqueue_back_upto:
  assumes q: "queue_upto_tail q pre suf" and ok: "queue_malloc_ok env f" "queue_strdup_ok env f"
  shows "\<exists>q'. rrd_queue_cache_entry env f QUEUE_INSERT_BACK q = Some (success, q')
           \<and> queue_is q' (pre @ [(queue_brk q, f)])"
proof (cases pre rule: rev_cases)
  case Nil
  with q ok show ?thesis
    by (simp add: rrd_queue_cache_entry_def queue_is_def queue_upto_tail_def Let_def)
next
  case (snoc ys y)
  obtain t tf where y: "y = (t, tf)" by (cases y)
  let ?h = "queue_heap q" and ?b = "queue_brk q"
  from q snoc y have tail: "queue_tail q = Some t" and lt: "\<forall>x\<in>set (pre @ suf). fst x < ?b"
    and seg: "queue_seg ?h (queue_head q) (ys @ (t, tf) # suf) None"
    by (auto simp: queue_upto_tail_def)
  from seg obtain n where ys: "queue_seg ?h (queue_head q) ys (Some t)"
    and n: "?h t = Some n" "filename n = tf"
    by (auto simp: queue_seg_append split: option.splits)
  from seg have "distinct (map fst (ys @ (t, tf) # suf))" by (rule queue_seg_distinct)
  then have t_notin: "t \<notin> fst ` set ys" by auto
  from lt snoc y have lt': "\<forall>x\<in>set ys. fst x < ?b" "t < ?b" by auto
  then have b_notin: "?b \<notin> fst ` set ys" and tb: "t \<noteq> ?b" by force+
  let ?h' = "(?h(?b \<mapsto> \<lparr>filename = f, qnext = None\<rparr>))(t \<mapsto> n\<lparr>qnext := Some ?b\<rparr>)"
  from ys t_notin b_notin have "queue_seg ?h' (queue_head q) ys (Some t)"
    by (simp add: queue_seg_upd_notin)
  moreover from n tb have "queue_seg ?h' (Some t) [(t, tf), (?b, f)] None"
    by simp
  ultimately have "queue_seg ?h' (queue_head q) (ys @ [(t, tf), (?b, f)]) None"
    by (auto simp: queue_seg_append)
  with tail n tb lt' snoc y ok show ?thesis
    by (auto simp: rrd_queue_cache_entry_def queue_is_def Let_def less_Suc_eq)
qed

lemma enqueue_front_is:
  assumes q: "queue_is q xs" and ok: "queue_malloc_ok env f" "queue_strdup_ok env f"
  shows "\<exists>q'. rrd_queue_cache_entry env f QUEUE_INSERT_FRONT q = Some (success, q')
           \<and> queue_is q' ((queue_brk q, f) # xs)"
proof -
  let ?h = "queue_heap q" and ?b = "queue_brk q"
  from q have lt: "\<forall>x\<in>set xs. fst x < ?b"
    and seg: "queue_seg ?h (queue_head q) xs None"
    and tail: "queue_tail q = (if xs = [] then None else Some (fst (last xs)))"
    by (auto simp: queue_is_def)
  from lt have "?b \<notin> fst ` set xs" by auto
  with seg have "queue_seg (?h(?b \<mapsto> \<lparr>filename = f, qnext = queue_head q\<rparr>)) (queue_head q) xs None"
    by (simp add: queue_seg_upd_notin)
  with lt tail ok show ?thesis
    by (auto simp: rrd_queue_cache_entry_def queue_is_def Let_def less_Suc_eq)
qed

lemma queue_scan_found:
  "queue_seg h this (pre @ (a, f) # suf) e \<Longrightarrow> f \<notin> snd ` set pre \<Longrightarrow>
   queue_scan h f this prev = Some (Some a, if pre = [] then prev else Some (fst (last pre)))"
proof (induction pre arbitrary: this prev)
  case Nil
  then show ?case
    by (subst queue_scan.simps) (auto split: option.splits)
next
  case (Cons x pre)
  from Cons.prems obtain n where n: "this = Some (fst x)" "h (fst x) = Some n"
      "filename n = snd x" "queue_seg h (qnext n) (pre @ (a, f) # suf) e"
    by (auto split: option.splits)
  from Cons.prems have nf: "snd x \<noteq> f" "f \<notin> snd ` set pre" by auto
  from Cons.IH [OF n(4) nf(2), of "Some (fst x)"] n nf show ?case
    by (subst queue_scan.simps) simp
qed

lemma queue_scan_absent:
  "queue_seg h this xs None \<Longrightarrow> f \<notin> snd ` set xs \<Longrightarrow>
   queue_scan h f this prev = Some (None, if xs = [] then prev else Some (fst (last xs)))"
proof (induction xs arbitrary: this prev)
  case Nil
  then show ?case
    by (subst queue_scan.simps) simp
next
  case (Cons x xs)
  from Cons.prems obtain n where n: "this = Some (fst x)" "h (fst x) = Some n"
      "filename n = snd x" "queue_seg h (qnext n) xs None"
    by (auto split: option.splits)
  from Cons.prems have nf: "snd x \<noteq> f" "f \<notin> snd ` set xs" by auto
  from Cons.IH [OF n(4) nf(2), of "Some (fst x)"] n nf show ?case
    by (subst queue_scan.simps) simp
qed

lemma move_absent:
  assumes "queue_seg (queue_heap q) (queue_head q) xs None" "f \<notin> snd ` set xs"
  shows "rrd_queue_move_to_front f q = Some (success, q)"
  using queue_scan_absent [OF assms, of None]
  by (auto simp: rrd_queue_move_to_front_def)

lemma move_head:
  assumes "queue_seg (queue_heap q) (queue_head q) ((a, f) # xs) None"
  shows "rrd_queue_move_to_front f q = Some (success, q)"
  using queue_scan_found [of "queue_heap q" "queue_head q" "[]" a f xs None None] assms
  by (auto simp: rrd_queue_move_to_front_def)

lemma move_inner:
  assumes seg: "queue_seg (queue_heap q) (queue_head q) (pre @ (p, pf) # (a, f) # suf) None"
      and nf: "f \<notin> snd ` set pre" "pf \<noteq> f"
  shows "\<exists>q'. rrd_queue_move_to_front f q = Some (success, q')
           \<and> queue_seg (queue_heap q') (queue_head q') ((a, f) # pre @ (p, pf) # suf) None
           \<and> queue_tail q' = queue_tail q \<and> queue_brk q' = queue_brk q"
proof -
  let ?h = "queue_heap q"
  from seg obtain pn tn where pre: "queue_seg ?h (queue_head q) pre (Some p)"
    and pn: "?h p = Some pn" "filename pn = pf" "qnext pn = Some a"
    and tn: "?h a = Some tn" "filename tn = f"
    and suf: "queue_seg ?h (qnext tn) suf None"
    by (auto simp: queue_seg_append split: option.splits)
  from seg have "distinct (map fst (pre @ (p, pf) # (a, f) # suf))" by (rule queue_seg_distinct)
  then have d: "p \<notin> fst ` set pre" "a \<notin> fst ` set pre" "p \<noteq> a"
      "p \<notin> fst ` set suf" "a \<notin> fst ` set suf"
    by auto
  let ?h1 = "?h(p \<mapsto> pn\<lparr>qnext := qnext tn\<rparr>)"
  let ?h2 = "?h1(a \<mapsto> tn\<lparr>qnext := queue_head q\<rparr>)"
  from nf have "f \<notin> snd ` set (pre @ [(p, pf)])" by auto
  from queue_scan_found [of ?h "queue_head q" "pre @ [(p, pf)]" a f suf None, OF _ this, of None] seg
  have scan: "queue_scan ?h f (queue_head q) None = Some (Some a, Some p)"
    by simp
  from pre d have 1: "queue_seg ?h2 (queue_head q) pre (Some p)"
    by (simp add: queue_seg_upd_notin)
  from suf d have 2: "queue_seg ?h2 (qnext tn) suf None"
    by (simp add: queue_seg_upd_notin)
  from 1 2 pn d have "queue_seg ?h2 (queue_head q) (pre @ (p, pf) # suf) None"
    by (auto simp: queue_seg_append)
  with tn have "queue_seg ?h2 (Some a) ((a, f) # pre @ (p, pf) # suf) None"
    by simp
  with scan pn tn d show ?thesis
    by (simp add: rrd_queue_move_to_front_def)
qed

lemma find_split:
  "find P xs = Some x \<Longrightarrow> \<exists>pre suf. xs = pre @ x # suf \<and> P x \<and> (\<forall>y\<in>set pre. \<not> P y)"
proof (induction xs)
  case Nil
  then show ?case by simp
next
  case (Cons a xs)
  show ?case
  proof (cases "P a")
    case True
    with Cons.prems show ?thesis by (intro exI [of _ "[]"] exI [of _ xs]) auto
  next
    case False
    with Cons obtain pre suf where "xs = pre @ x # suf" "P x" "\<forall>y\<in>set pre. \<not> P y" by auto
    with False show ?thesis by (intro exI [of _ "a # pre"] exI [of _ suf]) auto
  qed
qed

section \<open>Lemmas on the sweep when no allocation fails\<close>

lemma flush_iter_cache:
  assumes "allocs_ok env"
  shows "queue_tail_ok (queue st) \<Longrightarrow> cache st = done @ es \<Longrightarrow> distinct (map fst (done @ es)) \<Longrightarrow>
    \<exists>st'. rrd_cache_flush_iter env timeout now es keys st
            = Some (Some (keys @ map fst (filter (\<lambda>kv. flush_deletes timeout now (snd kv)) es)), st')
        \<and> cache st' = done @ map (flush_mark timeout now) es
        \<and> queue_tail_ok (queue st')
        \<and> cache_flush_last st' = cache_flush_last st"
proof (induction es arbitrary: st keys "done")
  case Nil
  then show ?case by simp
next
  case (Cons e es)
  obtain key rc where e: "e = (key, rc)" by (cases e)
  from Cons.prems e have d: "distinct (map fst ((done @ [e]) @ es))"
    and k: "key \<notin> fst ` set done" "key \<notin> fst ` set es"
    by auto
  show ?case
  proof (cases "flush_queues timeout now rc")
    case True
    from assms have ok: "queue_malloc_ok env key" "queue_strdup_ok env key"
      by (auto simp: allocs_ok_def)
    from enqueue_tail_ok [OF Cons.prems(1), of env key QUEUE_INSERT_BACK] ok
    obtain q' where q': "rrd_queue_cache_entry env key QUEUE_INSERT_BACK (queue st) = Some (success, q')"
        "queue_tail_ok q'"
      by auto
    let ?st1 = "st\<lparr>queue := q', cache := rc_store key (rc\<lparr>flags := FLAG_QUEUED\<rparr>) (cache st)\<rparr>"
    from Cons.prems(2) e k have c1: "cache ?st1 = (done @ [flush_mark timeout now e]) @ es"
      using True by (simp add: rc_store_distinct_mid flush_mark_def)
    have d1: "distinct (map fst ((done @ [flush_mark timeout now e]) @ es))"
      using d by (simp add: flush_mark_def)
    from q'(2) have t1: "queue_tail_ok (queue ?st1)" by simp
    from Cons.IH [OF t1 c1 d1, of keys] True q' e show ?thesis
      by (auto simp: flush_queues_def flush_due_def flush_deletes_def)
  next
    case False
    then have m: "flush_mark timeout now e = e" by (simp add: flush_mark_def e)
    from Cons.prems(2) have c1: "cache st = (done @ [e]) @ es" by simp
    show ?thesis
    proof (cases "flush_deletes timeout now rc")
      case True
      from assms have "realloc_keys_ok env key" by (auto simp: allocs_ok_def)
      with Cons.IH [OF Cons.prems(1) c1 d, of "keys @ [key]"] True False e m show ?thesis
        by (auto simp: flush_queues_def flush_due_def flush_deletes_def)
    next
      case nd: False
      with Cons.IH [OF Cons.prems(1) c1 d, of keys] False e m show ?thesis
        by (auto simp: flush_queues_def flush_due_def flush_deletes_def)
    qed
  qed
qed

lemma flush_iter_queue:
  assumes "allocs_ok env"
  shows "queue_is (queue st) xs \<Longrightarrow> rrd_cache_flush_iter env timeout now es keys st = Some (r, st') \<Longrightarrow>
    \<exists>ys. queue_is (queue st') (xs @ ys)
        \<and> map snd ys = map fst (filter (\<lambda>kv. flush_queues timeout now (snd kv)) es)"
proof (induction es arbitrary: st keys xs)
  case Nil
  then show ?case by simp
next
  case (Cons e es)
  obtain key rc where e: "e = (key, rc)" by (cases e)
  show ?case
  proof (cases "flush_queues timeout now rc")
    case True
    from assms have ok: "queue_malloc_ok env key" "queue_strdup_ok env key"
      by (auto simp: allocs_ok_def)
    from enqueue_back_is [OF Cons.prems(1) ok]
    obtain q' where q': "rrd_queue_cache_entry env key QUEUE_INSERT_BACK (queue st) = Some (success, q')"
        "queue_is q' (xs @ [(queue_brk (queue st), key)])"
      by auto
    let ?st1 = "st\<lparr>queue := q', cache := rc_store key (rc\<lparr>flags := FLAG_QUEUED\<rparr>) (cache st)\<rparr>"
    from q'(2) have 1: "queue_is (queue ?st1) (xs @ [(queue_brk (queue st), key)])" by simp
    from Cons.prems(2) True q' e
    have 2: "rrd_cache_flush_iter env timeout now es keys ?st1 = Some (r, st')"
      by (auto simp: flush_queues_def flush_due_def)
    from Cons.IH [OF 1 2] obtain ys where "queue_is (queue st') ((xs @ [(queue_brk (queue st), key)]) @ ys)"
        "map snd ys = map fst (filter (\<lambda>kv. flush_queues timeout now (snd kv)) es)"
      by blast
    with True e show ?thesis
      by (intro exI [of _ "(queue_brk (queue st), key) # ys"]) simp
  next
    case False
    show ?thesis
    proof (cases "flush_deletes timeout now rc")
      case True
      from assms have "realloc_keys_ok env key" by (auto simp: allocs_ok_def)
      with Cons.prems(2) True False e
      have "rrd_cache_flush_iter env timeout now es (keys @ [key]) st = Some (r, st')"
        by (auto simp: flush_queues_def flush_due_def flush_deletes_def split: if_splits)
      from Cons.IH [OF Cons.prems(1) this] False e show ?thesis by simp
    next
      case nd: False
      with Cons.prems(2) False e
      have "rrd_cache_flush_iter env timeout now es keys st = Some (r, st')"
        by (auto simp: flush_queues_def flush_due_def flush_deletes_def split: if_splits)
      from Cons.IH [OF Cons.prems(1) this] False e show ?thesis by simp
    qed
  qed
qed

lemma remove_deleted:
  assumes "distinct (map fst es)"
  shows "fold c_avl_remove (map fst (filter (\<lambda>kv. flush_deletes timeout now (snd kv)) es))
            (map (flush_mark timeout now) es)
         = map (flush_mark timeout now) (filter (\<lambda>kv. \<not> flush_deletes timeout now (snd kv)) es)"
proof -
  have "\<And>x. x \<in> set es \<Longrightarrow>
          (fst x \<in> fst ` {kv \<in> set es. flush_deletes timeout now (snd kv)})
          = flush_deletes timeout now (snd x)"
  proof -
    fix x assume x: "x \<in> set es"
    show "(fst x \<in> fst ` {kv \<in> set es. flush_deletes timeout now (snd kv)})
          = flush_deletes timeout now (snd x)"
    proof
      assume "fst x \<in> fst ` {kv \<in> set es. flush_deletes timeout now (snd kv)}"
      then obtain y where y: "y \<in> set es" "flush_deletes timeout now (snd y)" "fst x = fst y"
        by auto
      from distinct_fst_eq [OF assms x y(1) y(3)] y(2)
      show "flush_deletes timeout now (snd x)" by simp
    next
      assume "flush_deletes timeout now (snd x)"
      with x show "fst x \<in> fst ` {kv \<in> set es. flush_deletes timeout now (snd kv)}"
        by auto
    qed
  qed
  then show ?thesis
    by (auto simp: fold_c_avl_remove filter_map o_def flush_mark_def intro!: arg_cong [where f = "map _"] filter_cong)
qed

lemma c_avl_remove_absent: "c_avl_get c k = None \<Longrightarrow> c_avl_remove k c = c"
  by (induction c) (auto simp: c_avl_get_def c_avl_remove_def split: if_splits)

lemma flush_remove_Some:
  "rrd_cache_flush_remove ks c = Some c' \<Longrightarrow> c' = fold c_avl_remove ks c"
  by (induction ks arbitrary: c)
     (auto simp: c_avl_remove_absent split: option.splits if_splits)

lemma flush_remove_ok:
  "\<forall>k\<in>set ks. \<forall>rc. c_avl_get c k = Some rc \<longrightarrow> rc_values rc = None \<Longrightarrow>
   rrd_cache_flush_remove ks c = Some (fold c_avl_remove ks c)"
proof (induction ks arbitrary: c)
  case Nil
  show ?case by simp
next
  case (Cons k ks)
  show ?case
  proof (cases "c_avl_get c k")
    case None
    with Cons show ?thesis by (simp add: c_avl_remove_absent)
  next
    case (Some rc)
    with Cons.prems have v: "rc_values rc = None" by simp
    from Cons.prems
    have "\<forall>k'\<in>set ks. \<forall>rc. c_avl_get (c_avl_remove k c) k' = Some rc \<longrightarrow> rc_values rc = None"
      by (simp add: c_avl_get_remove)
    from Cons.IH [OF this] Some v show ?thesis by (simp add: values_num_def)
  qed
qed

lemma flush_returns:
  assumes "allocs_ok env" "cache_ok st" "queue_tail_ok (queue st)"
      and "rrd_cache_flush env timeout st = Some st'"
  shows "cache st' = map (flush_mark timeout (time_now env))
                       (filter (\<lambda>kv. \<not> flush_deletes timeout (time_now env) (snd kv)) (cache st))
      \<and> cache_flush_last st' = time_now env
      \<and> queue_tail_ok (queue st')"
proof -
  from assms(2) have d: "distinct (map fst ([] @ cache st))" by (simp add: cache_ok_def)
  from flush_iter_cache [OF assms(1) assms(3) _ d, of timeout "time_now env" "[]"]
  obtain st1 where st1: "rrd_cache_flush_iter env timeout (time_now env) (cache st) [] st
            = Some (Some (map fst (filter (\<lambda>kv. flush_deletes timeout (time_now env) (snd kv)) (cache st))), st1)"
        "cache st1 = map (flush_mark timeout (time_now env)) (cache st)"
        "queue_tail_ok (queue st1)"
    by auto
  from assms(4) st1 obtain c where c:
      "rrd_cache_flush_remove
         (map fst (filter (\<lambda>kv. flush_deletes timeout (time_now env) (snd kv)) (cache st)))
         (cache st1) = Some c"
      "st' = st1\<lparr>cache := c, cache_flush_last := time_now env\<rparr>"
    by (auto simp: rrd_cache_flush_def Let_def split: option.splits)
  from assms(2) have "distinct (map fst (cache st))" by (simp add: cache_ok_def)
  from flush_remove_Some [OF c(1)] st1 c(2) remove_deleted [OF this, of timeout "time_now env"]
  show ?thesis by simp
qed

lemma flush_char:
  assumes "allocs_ok env" "cache_ok st" "queue_tail_ok (queue st)" "no_empty_array (cache st)"
  shows "\<exists>st'. rrd_cache_flush env timeout st = Some st'
      \<and> cache st' = map (flush_mark timeout (time_now env))
                       (filter (\<lambda>kv. \<not> flush_deletes timeout (time_now env) (snd kv)) (cache st))
      \<and> cache_flush_last st' = time_now env
      \<and> queue_tail_ok (queue st')"
proof -
  let ?del = "\<lambda>kv. flush_deletes timeout (time_now env) (snd kv)"
  let ?mark = "flush_mark timeout (time_now env)"
  from assms(2) have d0: "distinct (map fst (cache st))" by (simp add: cache_ok_def)
  then have d: "distinct (map fst ([] @ cache st))" by simp
  from flush_iter_cache [OF assms(1) assms(3) _ d, of timeout "time_now env" "[]"]
  obtain st1 where st1: "rrd_cache_flush_iter env timeout (time_now env) (cache st) [] st
            = Some (Some (map fst (filter ?del (cache st))), st1)"
        "cache st1 = map ?mark (cache st)"
        "queue_tail_ok (queue st1)"
    by auto
  have "\<forall>k\<in>set (map fst (filter ?del (cache st))). \<forall>rc.
          c_avl_get (cache st1) k = Some rc \<longrightarrow> rc_values rc = None"
  proof (intro ballI allI impI)
    fix k rc
    assume k: "k \<in> set (map fst (filter ?del (cache st)))"
       and g: "c_avl_get (cache st1) k = Some rc"
    from k obtain kv2 where kv2: "kv2 \<in> set (cache st)" "?del kv2" "fst kv2 = k" by auto
    from g st1(2) have "(k, rc) \<in> set (map ?mark (cache st))"
      by (auto simp: c_avl_get_def dest: map_of_SomeD)
    then obtain kv where kv: "kv \<in> set (cache st)" "?mark kv = (k, rc)" by auto
    then have "fst kv = k" by (auto simp: flush_mark_def split: if_splits)
    with distinct_fst_eq [OF d0 kv(1) kv2(1)] kv2 have e: "kv = kv2" by simp
    with kv2 have nq: "\<not> flush_queues timeout (time_now env) (snd kv)"
      by (simp add: flush_deletes_def flush_queues_def)
    with kv(2) have rc: "rc = snd kv" by (simp add: flush_mark_def)
    from e kv2(2) have f: "flags (snd kv) \<noteq> FLAG_QUEUED" "\<not> values_num (snd kv) > 0"
      by (simp_all add: flush_deletes_def flush_due_def)
    from assms(4) kv(1) f(1) have "rc_values (snd kv) \<noteq> Some []"
      by (simp add: no_empty_array_def)
    with f(2) rc show "rc_values rc = None"
      by (cases "rc_values (snd kv)") (auto simp: values_num_def)
  qed
  from flush_remove_ok [OF this] st1 remove_deleted [OF d0, of timeout "time_now env"]
  show ?thesis by (simp add: rrd_cache_flush_def Let_def)
qed

lemma flush_queue:
  assumes "allocs_ok env" "queue_is (queue st) xs" "rrd_cache_flush env timeout st = Some st'"
  shows "\<exists>ys. queue_is (queue st') (xs @ ys)
        \<and> map snd ys = map fst (filter (\<lambda>kv. flush_queues timeout (time_now env) (snd kv)) (cache st))"
proof -
  from assms(3) obtain r st1 where r: "rrd_cache_flush_iter env timeout (time_now env) (cache st) [] st = Some (r, st1)"
     and q: "queue st' = queue st1"
    by (auto simp: rrd_cache_flush_def Let_def split: option.splits)
  from flush_iter_queue [OF assms(1) assms(2) r] q show ?thesis by simp
qed

lemma c_avl_get_flushed:
  "c_avl_get c k = Some rc \<Longrightarrow> \<not> flush_deletes timeout now rc \<Longrightarrow>
   c_avl_get (map (flush_mark timeout now) (filter (\<lambda>kv. \<not> flush_deletes timeout now (snd kv)) c)) k
     = Some (snd (flush_mark timeout now (k, rc)))"
  by (induction c) (auto simp: c_avl_get_def flush_mark_def split: if_splits)

lemma flush_iter_queue_upto:
  assumes "allocs_ok env"
  shows "queue_upto_tail (queue st) pre suf \<Longrightarrow>
    rrd_cache_flush_iter env timeout now es keys st = Some (r, st') \<Longrightarrow>
    \<exists>ys. queue_upto_tail (queue st') (pre @ ys) (if ys = [] then suf else [])
        \<and> map snd ys = map fst (filter (\<lambda>kv. flush_queues timeout now (snd kv)) es)"
proof (induction es arbitrary: st keys)
  case Nil
  then show ?case by simp
next
  case (Cons e es)
  obtain key rc where e: "e = (key, rc)" by (cases e)
  show ?case
  proof (cases "flush_queues timeout now rc")
    case True
    from assms have ok: "queue_malloc_ok env key" "queue_strdup_ok env key"
      by (auto simp: allocs_ok_def)
    from enqueue_back_upto [OF Cons.prems(1) ok]
    obtain q' where q': "rrd_queue_cache_entry env key QUEUE_INSERT_BACK (queue st) = Some (success, q')"
        "queue_is q' (pre @ [(queue_brk (queue st), key)])"
      by auto
    let ?st1 = "st\<lparr>queue := q', cache := rc_store key (rc\<lparr>flags := FLAG_QUEUED\<rparr>) (cache st)\<rparr>"
    from q'(2) have 1: "queue_is (queue ?st1) (pre @ [(queue_brk (queue st), key)])" by simp
    from Cons.prems(2) True q' e
    have 2: "rrd_cache_flush_iter env timeout now es keys ?st1 = Some (r, st')"
      by (auto simp: flush_queues_def flush_due_def)
    from flush_iter_queue [OF assms 1 2] obtain ys where
        "queue_is (queue st') ((pre @ [(queue_brk (queue st), key)]) @ ys)"
        "map snd ys = map fst (filter (\<lambda>kv. flush_queues timeout now (snd kv)) es)"
      by blast
    with True e show ?thesis
      by (intro exI [of _ "(queue_brk (queue st), key) # ys"]) (simp add: queue_is_upto)
  next
    case False
    show ?thesis
    proof (cases "flush_deletes timeout now rc")
      case True
      from assms have "realloc_keys_ok env key" by (auto simp: allocs_ok_def)
      with Cons.prems(2) True False e
      have "rrd_cache_flush_iter env timeout now es (keys @ [key]) st = Some (r, st')"
        by (auto simp: flush_queues_def flush_due_def flush_deletes_def split: if_splits)
      from Cons.IH [OF Cons.prems(1) this] False e show ?thesis by simp
    next
      case nd: False
      with Cons.prems(2) False e
      have "rrd_cache_flush_iter env timeout now es keys st = Some (r, st')"
        by (auto simp: flush_queues_def flush_due_def flush_deletes_def split: if_splits)
      from Cons.IH [OF Cons.prems(1) this] False e show ?thesis by simp
    qed
  qed
qed

lemma flush_queue_upto:
  assumes "allocs_ok env" "queue_upto_tail (queue st) pre suf"
      and "rrd_cache_flush env timeout st = Some st'"
  shows "\<exists>ys. queue_upto_tail (queue st') (pre @ ys) (if ys = [] then suf else [])
        \<and> map snd ys = map fst (filter (\<lambda>kv. flush_queues timeout (time_now env) (snd kv)) (cache st))"
proof -
  from assms(3) obtain r st1 where r: "rrd_cache_flush_iter env timeout (time_now env) (cache st) [] st = Some (r, st1)"
     and q: "queue st' = queue st1"
    by (auto simp: rrd_cache_flush_def Let_def split: option.splits)
  from flush_iter_queue_upto [OF assms(1) assms(2) r] q show ?thesis by simp
qed

lemma c_avl_get_flushed_del:
  "distinct (map fst c) \<Longrightarrow> c_avl_get c k = Some rc \<Longrightarrow> flush_deletes timeout now rc \<Longrightarrow>
   c_avl_get (map (flush_mark timeout now) (filter (\<lambda>kv. \<not> flush_deletes timeout now (snd kv)) c)) k
     = None"
proof (induction c)
  case Nil
  then show ?case by (simp add: c_avl_get_def)
next
  case (Cons x c)
  show ?case
  proof (cases "fst x = k")
    case True
    with Cons.prems have "snd x = rc" "k \<notin> fst ` set c" by (auto simp: c_avl_get_def)
    with Cons.prems(3) True show ?thesis
      by (auto simp: c_avl_get_def map_of_eq_None_iff flush_mark_def image_iff)
  next
    case False
    with Cons show ?thesis
      by (auto simp: c_avl_get_def flush_mark_def)
  qed
qed

section \<open>Lemmas on the insertion when no allocation fails\<close>

lemma values_num_append:
  "strdup_value_ok env \<Longrightarrow> values_num (rrd_cache_append env rc v t) > 0"
  by (auto simp: rrd_cache_append_def values_num_def Let_def split: option.splits)

lemma last_value_append [simp]: "last_value (rrd_cache_append env rc v t) = t"
  by (simp add: rrd_cache_append_def Let_def)

lemma flags_append [simp]: "flags (rrd_cache_append env rc v t) = flags rc"
  by (simp add: rrd_cache_append_def Let_def)

lemma insert_entry_ok:
  assumes ok: "allocs_ok env" and c: "cache_ok st" and q: "queue_tail_ok (queue st)"
      and rc0: "rc0 = (case c_avl_get (cache st) f of Some r \<Rightarrow> r | None \<Rightarrow> rrd_cache_new)"
      and lt: "last_value rc0 < t"
      and rc3: "rc3 = rrd_cache_append env rc0 v t"
  shows "\<exists>st1. rrd_cache_insert_entry cfg env f v t st = Some (success, st1)
          \<and> c_avl_get (cache st1) f
              = Some (if cache_timeout cfg \<le> last_value rc3 - first_value rc3 \<and> flags rc3 \<noteq> FLAG_QUEUED
                      then rc3\<lparr>flags := FLAG_QUEUED\<rparr> else rc3)
          \<and> cache_ok st1 \<and> queue_tail_ok (queue st1)
          \<and> cache_flush_last st1 = cache_flush_last st"
proof -
  from ok have a: "malloc_rc_ok env" "realloc_values_ok env" "strdup_key_ok env"
      "queue_malloc_ok env f" "queue_strdup_ok env f"
    by (auto simp: allocs_ok_def)
  from enqueue_tail_ok [of "queue st" env f QUEUE_INSERT_BACK] q a
  obtain q' where q': "rrd_queue_cache_entry env f QUEUE_INSERT_BACK (queue st) = Some (success, q')"
      "queue_tail_ok q'"
    by auto
  from c have d: "distinct (map fst (cache st))" by (simp add: cache_ok_def)
  show ?thesis
  proof (cases "c_avl_get (cache st) f")
    case None
    then have k: "f \<notin> fst ` set (cache st)" by (simp add: c_avl_get_None_keys)
    from None have g1: "c_avl_get (c_avl_insert f rc3 (cache st)) f = Some rc3"
      by (simp add: c_avl_get_insert)
    from k d have d1: "distinct (map fst (c_avl_insert f rc3 (cache st)))"
      by (rule distinct_c_avl_insert)
    from None a lt rc0 rc3 q q' g1 d1 show ?thesis
      by (simp add: rrd_cache_insert_entry_def Let_def cache_ok_def c_avl_get_rc_store keys_rc_store)
  next
    case (Some r)
    then have g1: "c_avl_get (rc_store f rc3 (cache st)) f = Some rc3"
      by (simp add: c_avl_get_rc_store)
    from Some a lt rc0 rc3 q q' g1 d show ?thesis
      by (simp add: rrd_cache_insert_entry_def Let_def cache_ok_def c_avl_get_rc_store keys_rc_store)
  qed
qed

lemma set_rc_store: "kv \<in> set (rc_store k v c) \<Longrightarrow> fst kv = k \<or> kv \<in> set c"
  by (auto simp: rc_store_def split: if_splits)

lemma set_c_avl_insert: "kv \<in> set (c_avl_insert k v c) \<Longrightarrow> fst kv = k \<or> kv \<in> set c"
  by (induction c) (auto split: if_splits)

lemma insert_entry_entries:
  assumes "rrd_cache_insert_entry cfg env f v t st = Some (success, st1)"
  shows "\<forall>kv\<in>set (cache st1). fst kv = f \<or> kv \<in> set (cache st)"
proof -
  define P where "P = (\<lambda>c :: (string \<times> rrd_cache_t) list. \<forall>kv\<in>set c. fst kv = f \<or> kv \<in> set (cache st))"
  have 0: "P (cache st)" by (simp add: P_def)
  have 1: "P c \<Longrightarrow> P (rc_store f x c)" for x c
    by (auto simp: P_def dest: set_rc_store)
  have 2: "P c \<Longrightarrow> P (c_avl_insert f x c)" for x c
    by (auto simp: P_def dest: set_c_avl_insert)
  from assms have "P (cache st1)"
    by (auto simp: rrd_cache_insert_entry_def Let_def split: option.splits if_splits
             intro!: 0 1 2)
  then show ?thesis by (simp add: P_def)
qed

lemma insert_ok:
  assumes ok: "allocs_ok env" and c: "cache_ok st" and q: "queue_tail_ok (queue st)"
      and ne: "no_empty_array (c_avl_remove f (cache st))"
      and rc0: "rc0 = (case c_avl_get (cache st) f of Some r \<Rightarrow> r | None \<Rightarrow> rrd_cache_new)"
      and lt: "last_value rc0 < t"
  shows "\<exists>st' rc'. rrd_cache_insert cfg env f v t st = Some (success, st')
          \<and> c_avl_get (cache st') f = Some rc' \<and> last_value rc' = t"
proof -
  let ?rc3 = "rrd_cache_append env rc0 v t"
  define rc1 where "rc1 = (if cache_timeout cfg \<le> last_value ?rc3 - first_value ?rc3 \<and> flags ?rc3 \<noteq> FLAG_QUEUED
                      then ?rc3\<lparr>flags := FLAG_QUEUED\<rparr> else ?rc3)"
  from insert_entry_ok [OF ok c q rc0 lt refl, of cfg v]
  obtain st1 where st1: "rrd_cache_insert_entry cfg env f v t st = Some (success, st1)"
      "c_avl_get (cache st1) f = Some rc1" "cache_ok st1" "queue_tail_ok (queue st1)"
    unfolding rc1_def by blast
  from ok have sv: "strdup_value_ok env" by (simp add: allocs_ok_def)
  then have "values_num ?rc3 > 0" by (rule values_num_append)
  then have vn: "values_num rc1 > 0"
    by (simp add: rc1_def values_num_def)
  then have nd: "\<not> flush_deletes timeout now rc1" for timeout now
    by (simp add: flush_deletes_def)
  from vn have nv: "rc_values rc1 \<noteq> Some []"
    by (auto simp: values_num_def)
  have lv: "last_value rc1 = t" by (simp add: rc1_def)
  have ne1: "no_empty_array (cache st1)"
    unfolding no_empty_array_def
  proof (intro ballI impI)
    fix kv assume kv: "kv \<in> set (cache st1)" and nq: "flags (snd kv) \<noteq> FLAG_QUEUED"
    show "rc_values (snd kv) \<noteq> Some []"
    proof (cases "fst kv = f")
      case True
      from st1(3) have "distinct (map fst (cache st1))" by (simp add: cache_ok_def)
      moreover from True have "(f, snd kv) = kv" by auto
      with kv have "(f, snd kv) \<in> set (cache st1)" by simp
      ultimately have "map_of (cache st1) f = Some (snd kv)" by (rule map_of_is_SomeI)
      with st1(2) have "snd kv = rc1" by (simp add: c_avl_get_def)
      with nv show ?thesis by simp
    next
      case False
      from insert_entry_entries [OF st1(1)] kv have "fst kv = f \<or> kv \<in> set (cache st)"
        by blast
      with False have "kv \<in> set (c_avl_remove f (cache st))"
        by (simp add: c_avl_remove_def)
      with ne nq show ?thesis by (simp add: no_empty_array_def)
    qed
  qed
  show ?thesis
  proof (cases "cache_timeout cfg > 0
             \<and> time_check env - cache_flush_last st1 > cache_flush_timeout cfg")
    case True
    from flush_char [OF ok st1(3) st1(4) ne1, of "cache_flush_timeout cfg"]
    obtain st' where st': "rrd_cache_flush env (cache_flush_timeout cfg) st1 = Some st'"
       "cache st' = map (flush_mark (cache_flush_timeout cfg) (time_now env))
                       (filter (\<lambda>kv. \<not> flush_deletes (cache_flush_timeout cfg) (time_now env) (snd kv)) (cache st1))"
      by blast
    from c_avl_get_flushed [OF st1(2) nd] st'(2)
    have "c_avl_get (cache st') f = Some (snd (flush_mark (cache_flush_timeout cfg) (time_now env) (f, rc1)))"
      by simp
    moreover from lv have "last_value (snd (flush_mark (cache_flush_timeout cfg) (time_now env) (f, rc1))) = t"
      by (simp add: flush_mark_def)
    ultimately show ?thesis using True st1(1) st'(1)
      by (simp add: rrd_cache_insert_def)
  next
    case False
    with st1(1,2) lv show ?thesis
      by (auto simp: rrd_cache_insert_def)
  qed
qed

lemma insert_entry_lt:
  "rrd_cache_insert_entry cfg env f v t st = Some (success, st1) \<Longrightarrow>
   last_value (case c_avl_get (cache st) f of Some r \<Rightarrow> r | None \<Rightarrow> rrd_cache_new) < t"
  by (auto simp: rrd_cache_insert_entry_def Let_def split: if_splits option.splits)

lemma first_insert_cond:
  assumes "strdup_value_ok env" "rc3 = rrd_cache_append env rrd_cache_new v t"
  shows "last_value rc3 - first_value rc3 = 0 \<and> flags rc3 \<noteq> FLAG_QUEUED"
  using assms by (simp add: rrd_cache_append_def rrd_cache_new_def values_num_def Let_def)

lemma insert_entry_queue:
  assumes ok: "allocs_ok env" and q: "queue_upto_tail (queue st) pre suf"
      and rc3: "rc3 = rrd_cache_append env
                  (case c_avl_get (cache st) f of Some r \<Rightarrow> r | None \<Rightarrow> rrd_cache_new) v t"
      and cond: "cache_timeout cfg \<le> last_value rc3 - first_value rc3" "flags rc3 \<noteq> FLAG_QUEUED"
      and r: "rrd_cache_insert_entry cfg env f v t st = Some (success, st1)"
  shows "queue_is (queue st1) (pre @ [(queue_brk (queue st), f)])"
proof -
  from ok have a: "queue_malloc_ok env f" "queue_strdup_ok env f"
    by (auto simp: allocs_ok_def)
  from enqueue_back_upto [OF q a]
  obtain q' where q': "rrd_queue_cache_entry env f QUEUE_INSERT_BACK (queue st) = Some (success, q')"
      "queue_is q' (pre @ [(queue_brk (queue st), f)])"
    by auto
  from r rc3 cond q' show ?thesis
    by (auto simp: rrd_cache_insert_entry_def Let_def split: if_splits option.splits)
qed

lemma insert_enqueues:
  assumes ok: "allocs_ok env" and c: "cache_ok st" and q: "queue_upto_tail (queue st) pre suf"
      and r: "rrd_cache_insert cfg env f v t st = Some (success, st')"
      and rc3: "rc3 = rrd_cache_append env
                  (case c_avl_get (cache st) f of Some r \<Rightarrow> r | None \<Rightarrow> rrd_cache_new) v t"
      and cond: "cache_timeout cfg \<le> last_value rc3 - first_value rc3" "flags rc3 \<noteq> FLAG_QUEUED"
  shows "\<exists>ys. queue_is (queue st') (pre @ (queue_brk (queue st), f) # ys)
            \<and> (cache_timeout cfg \<le> 0 \<longrightarrow> ys = [])
            \<and> map_option flags (c_avl_get (cache st') f) = Some FLAG_QUEUED"
proof -
  from r obtain st1 where e: "rrd_cache_insert_entry cfg env f v t st = Some (success, st1)"
    by (auto simp: rrd_cache_insert_def split: option.splits sum.splits if_splits)
  from e have lt: "last_value (case c_avl_get (cache st) f of Some r \<Rightarrow> r | None \<Rightarrow> rrd_cache_new) < t"
    by (rule insert_entry_lt)
  from q have tq: "queue_tail_ok (queue st)" by (rule queue_upto_tail_ok)
  from insert_entry_ok [OF ok c tq refl lt rc3, of cfg] e cond
  have st1: "c_avl_get (cache st1) f = Some (rc3\<lparr>flags := FLAG_QUEUED\<rparr>)" "cache_ok st1"
      "queue_tail_ok (queue st1)"
    by auto
  from insert_entry_queue [OF ok q rc3 cond e]
  have q1: "queue_is (queue st1) (pre @ [(queue_brk (queue st), f)])" .
  show ?thesis
  proof (cases "cache_timeout cfg > 0
             \<and> time_check env - cache_flush_last st1 > cache_flush_timeout cfg")
    case True
    with r e have fl: "rrd_cache_flush env (cache_flush_timeout cfg) st1 = Some st'"
      by (auto simp: rrd_cache_insert_def split: option.splits)
    from flush_returns [OF ok st1(2) st1(3) fl]
    have c': "cache st' = map (flush_mark (cache_flush_timeout cfg) (time_now env))
                       (filter (\<lambda>kv. \<not> flush_deletes (cache_flush_timeout cfg) (time_now env) (snd kv)) (cache st1))"
      by auto
    have nd: "\<not> flush_deletes (cache_flush_timeout cfg) (time_now env) (rc3\<lparr>flags := FLAG_QUEUED\<rparr>)"
      by (simp add: flush_deletes_def flush_due_def)
    from c_avl_get_flushed [OF st1(1) nd] c'
    have g: "map_option flags (c_avl_get (cache st') f) = Some FLAG_QUEUED"
      by (simp add: flush_mark_def)
    from flush_queue [OF ok q1 fl] obtain ys where
      "queue_is (queue st') ((pre @ [(queue_brk (queue st), f)]) @ ys)" by blast
    with g True show ?thesis by auto
  next
    case False
    with r e have "st' = st1"
      by (auto simp: rrd_cache_insert_def split: option.splits if_splits)
    with st1 q1 show ?thesis by auto
  qed
qed

section \<open>Lemmas on the keys of the tree\<close>

lemma flush_identifier_keys:
  "rrd_cache_flush_identifier cfg e timeout (Some ident) st = Some (r, s2) \<Longrightarrow>
   map fst (cache s2) = map fst (cache st)"
  by (auto simp: rrd_cache_flush_identifier_def Let_def keys_rc_store
           split: option.splits if_splits)

lemma steal_keys:
  "rrd_queue_thread_steal f st = Some (r, s2) \<Longrightarrow> map fst (cache s2) = map fst (cache st)"
  by (auto simp: rrd_queue_thread_steal_def keys_rc_store split: option.splits)

lemma insert_entry_keys:
  assumes "rrd_cache_insert_entry cfg e f v t st = Some (r, s2)" and "realloc_values_ok e"
  shows "fst ` set (cache st) \<subseteq> fst ` set (cache s2)"
proof -
  define K where "K = (\<lambda>c :: (string \<times> rrd_cache_t) list. fst ` set c)"
  have 1: "K (rc_store k x c) = K c" for k x c
    by (simp add: K_def keys_set_rc_store)
  have 2: "K c \<subseteq> K (c_avl_insert k x c)" for k x c
    by (auto simp: K_def keys_c_avl_insert)
  from assms have "K (cache st) \<subseteq> K (cache s2)"
    by (auto simp: rrd_cache_insert_entry_def Let_def 1 split: option.splits if_splits
             intro: 2 [THEN subsetD])
  then show ?thesis by (simp add: K_def)
qed

lemma insert_is_entry_then_flush:
  "rrd_cache_insert cfg e f v t st = Some (r, s3) \<Longrightarrow>
   \<exists>r1 s2. rrd_cache_insert_entry cfg e f v t st = Some (r1, s2)
     \<and> (s3 = s2 \<or> rrd_cache_flush e (cache_flush_timeout cfg) s2 = Some s3)"
  by (auto simp: rrd_cache_insert_def split: option.splits sum.splits if_splits)

section \<open>Evaluation at concrete inputs\<close>

lemmas eval_defs =
  rrd_cache_insert_def rrd_cache_insert_entry_def rrd_cache_append_def rrd_cache_new_def
  rrd_cache_flush_identifier_def rrd_flush_key_def rrd_cache_flush_def rrd_shutdown_def
  rrd_queue_thread_steal_def rrd_flush_def
  rrd_queue_dequeue_def rrd_queue_move_to_front_def queue_scan.simps rrd_queue_cache_entry_def
  rrd_queue_free_def queue_view_def
  c_avl_get_def c_avl_remove_def rc_store_def values_num_def queue_init_def
  cfg_nocache_def cfg_cached_def env_ok_def env_realloc_fails_def env_queue_fails_def
  st_init_def Let_def

section \<open>The claims\<close>

text \<open>
  C1. The claim: a file name is in the dispatch queue if and only if its cache entry has
  \<open>flags = QUEUED\<close>, and it is there at most once. The code does not keep this.
  \<^verbatim>\<open>rrd_queue_move_to_front\<close> relinks a node at the head and does not move \<^verbatim>\<open>queue_tail\<close>.
  In the run below, with caching disabled, a sample queues \<^verbatim>\<open>h/a/a.rrd\<close> and a second one
  \<^verbatim>\<open>h/b/b.rrd\<close>; the flush of the identifier \<^verbatim>\<open>h/b/b\<close> moves the last node to the head and leaves
  \<^verbatim>\<open>queue_tail\<close> on it; the writer then finds \<^verbatim>\<open>queue_head == queue_tail\<close>, takes the node
  of \<^verbatim>\<open>h/b/b.rrd\<close> and sets both pointers to NULL. Now \<^verbatim>\<open>h/a/a.rrd\<close> is in no queue while its entry
  is marked \<open>QUEUED\<close>: the next sample for it is stored and not queued, the sweep of the
  shutdown skips the entry, and the queue stays empty, so its values are never written.
\<close>

theorem C1_promoted_tail_empties_queue:
  "rrd_cache_insert cfg_nocache (env_ok 1) ''h/a/a.rrd'' ''1:0'' 1 st_init = Some (success, bug_s1)
   \<and> rrd_cache_insert cfg_nocache (env_ok 1) ''h/b/b.rrd'' ''1:0'' 1 bug_s1 = Some (success, bug_s2)
   \<and> queue_view (queue bug_s2) [0, 1]
       = (Some 0, Some 1, [Some \<lparr>filename = ''h/a/a.rrd'', qnext = Some 1\<rparr>,
                            Some \<lparr>filename = ''h/b/b.rrd'', qnext = None\<rparr>])
   \<and> rrd_cache_flush_identifier cfg_nocache (env_ok 1) 0 (Some ''h/b/b'') bug_s2
       = Some (success, bug_s3)
   \<and> queue_view (queue bug_s3) [0, 1]
       = (Some 1, Some 1, [Some \<lparr>filename = ''h/a/a.rrd'', qnext = None\<rparr>,
                            Some \<lparr>filename = ''h/b/b.rrd'', qnext = Some 0\<rparr>])
   \<and> rrd_queue_dequeue False (queue bug_s3) = Some (QUEUE_ENTRY 1, queue bug_s4)
   \<and> queue_head (queue bug_s4) = None \<and> queue_tail (queue bug_s4) = None
   \<and> c_avl_get (cache bug_s4) ''h/a/a.rrd''
       = Some \<lparr>rc_values = Some [''1:0''], first_value = 1, last_value = 1, flags = FLAG_QUEUED\<rparr>
   \<and> rrd_queue_thread_steal ''h/b/b.rrd'' bug_s4
       = Some ((Some [''1:0''], 1), bug_s5\<lparr>queue := queue bug_s4\<rparr>)
   \<and> queue bug_s5 = rrd_queue_free 1 (queue bug_s4)
   \<and> rrd_cache_insert cfg_nocache (env_ok 2) ''h/a/a.rrd'' ''2:0'' 2 bug_s5 = Some (success, bug_s6)
   \<and> rrd_shutdown (env_ok 3) bug_s6 = Some (bug_s7, True)
   \<and> queue_head (queue bug_s7) = None
   \<and> c_avl_get (cache bug_s7) ''h/a/a.rrd''
       = Some \<lparr>rc_values = Some [''1:0'', ''2:0''], first_value = 1, last_value = 2,
               flags = FLAG_QUEUED\<rparr>"
  by (simp add: bug_s1_def bug_s2_def bug_s3_def bug_s4_def bug_s5_def bug_s6_def bug_s7_def
        eval_defs)

text \<open>
  The same invariant breaks a second way. After the first step of that run the file is
  queued; an insert whose \<^verbatim>\<open>realloc\<close> fails removes the entry and leaves the node in the
  queue; the next insert makes a new entry and queues the file once more.
\<close>

lemma realloc_failure_queues_twice:
  "rrd_cache_insert cfg_nocache (env_realloc_fails 2) ''h/a/a.rrd'' ''2:0'' 2 bug_s1
     = Some (Inl ALLOC_FAILED, bug_s1\<lparr>cache := []\<rparr>)
   \<and> queue_is (queue (bug_s1\<lparr>cache := []\<rparr>)) [(0, ''h/a/a.rrd'')]
   \<and> queue_is
         (queue (snd (the (rrd_cache_insert cfg_nocache (env_ok 3) ''h/a/a.rrd'' ''3:0'' 3
                             (bug_s1\<lparr>cache := []\<rparr>)))))
         [(0, ''h/a/a.rrd''), (1, ''h/a/a.rrd'')]"
  by (simp add: bug_s1_def queue_is_def eval_defs)

text \<open>
  C2, as amended. An insert with a time stamp \<open>t\<close> not above \<^verbatim>\<open>last_value\<close> of the entry
  (for a file name without an entry: not above the 0 of the entry allocated for it)
  returns the out-of-order error and leaves the state as it was. An insert with \<open>t\<close> above
  \<^verbatim>\<open>last_value\<close> succeeds, and afterwards the entry of the file name has
  \<^verbatim>\<open>last_value = t\<close>, above the old value, provided that no allocation of the call fails
  and that no other entry outside the queue holds an allocated, empty array of values
  (a failed \<^verbatim>\<open>strdup\<close> of an earlier insert leaves one; the in-line sweep of the call, when
  it deletes such an entry, fails its assertion \<^verbatim>\<open>rc->values == NULL\<close> and the program
  aborts). The tree has unique keys and \<^verbatim>\<open>queue_tail\<close> is NULL or an allocated node.
\<close>

theorem C2_insert_monotonic:
  assumes "rc0 = (case c_avl_get (cache st) f of Some r \<Rightarrow> r | None \<Rightarrow> rrd_cache_new)"
  shows "(t \<le> last_value rc0 \<and> (c_avl_get (cache st) f = None \<longrightarrow> malloc_rc_ok env) \<longrightarrow>
            rrd_cache_insert cfg env f v t st = Some (Inl OUT_OF_ORDER, st))
       \<and> (last_value rc0 < t \<and> allocs_ok env \<and> cache_ok st \<and> queue_tail_ok (queue st)
            \<and> no_empty_array (c_avl_remove f (cache st)) \<longrightarrow>
            (\<exists>st' rc'. rrd_cache_insert cfg env f v t st = Some (success, st')
               \<and> c_avl_get (cache st') f = Some rc' \<and> last_value rc' = t
               \<and> last_value rc0 < last_value rc'))"
proof (intro conjI impI)
  assume "t \<le> last_value rc0 \<and> (c_avl_get (cache st) f = None \<longrightarrow> malloc_rc_ok env)"
  with assms show "rrd_cache_insert cfg env f v t st = Some (Inl OUT_OF_ORDER, st)"
    by (auto simp: rrd_cache_insert_def rrd_cache_insert_entry_def Let_def split: option.splits)
next
  assume a: "last_value rc0 < t \<and> allocs_ok env \<and> cache_ok st \<and> queue_tail_ok (queue st)
            \<and> no_empty_array (c_avl_remove f (cache st))"
  with insert_ok [OF _ _ _ _ assms, of env t cfg v]
  show "\<exists>st' rc'. rrd_cache_insert cfg env f v t st = Some (success, st')
               \<and> c_avl_get (cache st') f = Some rc' \<and> last_value rc' = t
               \<and> last_value rc0 < last_value rc'"
    by auto
qed

text \<open>
  The entry of \<^verbatim>\<open>h/f/f.rrd\<close> has \<^verbatim>\<open>last_value = 100\<close>: a sample at 99 is rejected, one at 101
  is stored. A first sample of \<^verbatim>\<open>h/f/f.rrd\<close> at 300, beside two other entries and with the
  in-line sweep due, is stored as well.
\<close>

theorem C2_insert_monotonic_witness:
  "rrd_cache_insert cfg_cached (env_ok 100) ''h/f/f.rrd'' ''99:1'' 99 st_one
     = Some (Inl OUT_OF_ORDER, st_one)
   \<and> (\<exists>st' rc'. rrd_cache_insert cfg_cached (env_ok 101) ''h/f/f.rrd'' ''101:1'' 101 st_one
                   = Some (success, st')
        \<and> c_avl_get (cache st') ''h/f/f.rrd'' = Some rc' \<and> last_value rc' = 101
        \<and> (100::int) < last_value rc')
   \<and> (\<exists>st' rc'. rrd_cache_insert cfg_cached (env_ok 300) ''h/f/f.rrd'' ''300:1'' 300 st_two
                   = Some (success, st')
        \<and> c_avl_get (cache st') ''h/f/f.rrd'' = Some rc' \<and> last_value rc' = 300)"
proof -
  have g: "c_avl_get (cache st_one) ''h/f/f.rrd''
            = Some \<lparr>rc_values = Some [''100:0''], first_value = 100, last_value = 100,
                    flags = FLAG_NONE\<rparr>"
          "c_avl_get (cache st_two) ''h/f/f.rrd'' = None"
    by (simp_all add: st_one_def st_two_def c_avl_get_def)
  have h: "allocs_ok (env_ok 101)" "cache_ok st_one" "queue_tail_ok (queue st_one)"
      "no_empty_array (c_avl_remove ''h/f/f.rrd'' (cache st_one))"
      "allocs_ok (env_ok 300)" "cache_ok st_two" "queue_tail_ok (queue st_two)"
      "no_empty_array (c_avl_remove ''h/f/f.rrd'' (cache st_two))"
    by (simp_all add: allocs_ok_def env_ok_def cache_ok_def st_one_def st_two_def
          queue_tail_ok_def queue_init_def no_empty_array_def c_avl_remove_def)
  from C2_insert_monotonic [OF refl, of 99 st_one "''h/f/f.rrd''" "env_ok 100" cfg_cached "''99:1''"]
       C2_insert_monotonic [OF refl, of 101 st_one "''h/f/f.rrd''" "env_ok 101" cfg_cached "''101:1''"]
       C2_insert_monotonic [OF refl, of 300 st_two "''h/f/f.rrd''" "env_ok 300" cfg_cached "''300:1''"]
       g h
  show ?thesis by (auto simp: rrd_cache_new_def)
qed

text \<open>
  The claim without the proviso fails: with a time stamp above \<^verbatim>\<open>last_value\<close> and the
  \<^verbatim>\<open>realloc\<close> of \<^verbatim>\<open>values\<close> failing, the insert does not succeed, and the entry is gone.
\<close>

theorem C2_insert_fails_without_memory:
  "c_avl_get (cache st_one) ''h/f/f.rrd''
     = Some \<lparr>rc_values = Some [''100:0''], first_value = 100, last_value = 100,
             flags = FLAG_NONE\<rparr>
   \<and> (100::int) < 105
   \<and> rrd_cache_insert cfg_cached (env_realloc_fails 105) ''h/f/f.rrd'' ''105:1'' 105 st_one
       = Some (Inl ALLOC_FAILED, st_one\<lparr>cache := []\<rparr>)
   \<and> rrd_cache_insert cfg_cached (env_realloc_fails 105) ''h/f/f.rrd'' ''105:1'' 105 st_one
       \<noteq> Some (success, st_one\<lparr>cache := []\<rparr>)"
  by (simp add: st_one_def eval_defs)

text \<open>
  The second proviso is needed as well. An insert whose \<^verbatim>\<open>strdup\<close> of the value fails
  reports success and leaves an entry with an allocated array and no value. When a later
  insert of another file name runs the in-line sweep, the sweep removes that entry and
  its assertion \<^verbatim>\<open>rc->values == NULL\<close> fails: the call does not return.
\<close>

lemma insert_aborts_on_empty_array:
  "rrd_cache_insert cfg_cached (env_strdup_fails 5) ''h/a/a.rrd'' ''5:0'' 5 st_init
     = Some (success, st_empty_array)
   \<and> rrd_cache_insert cfg_cached (env_ok 300) ''h/f/f.rrd'' ''300:1'' 300 st_empty_array = None"
  by (simp add: st_empty_array_def env_strdup_fails_def eval_defs)

text \<open>
  C3, as amended. For an identifier whose key is not in the cache,
  \<^verbatim>\<open>rrd_cache_flush_identifier\<close> returns the status of the failed lookup and changes
  nothing; the operation that the daemon calls, \<^verbatim>\<open>rrd_flush\<close>, does not pass that status on
  and returns 0.
\<close>

theorem C3_flush_unknown_identifier:
  assumes "c_avl_get (cache st) (rrd_flush_key cfg ident) = None"
  shows "rrd_cache_flush_identifier cfg env timeout (Some ident) st = Some (Inl NOT_FOUND, st)
       \<and> rrd_flush cfg env timeout (Some ident) (Some st) = Some (success, Some st)"
  using assms by (simp add: rrd_cache_flush_identifier_def rrd_flush_def Let_def)

text \<open>
  The cache holds \<^verbatim>\<open>h/f/f.rrd\<close> only; the identifier \<^verbatim>\<open>h/g/g\<close> is unknown.
\<close>

theorem C3_flush_unknown_identifier_witness:
  "c_avl_get (cache st_one) (rrd_flush_key cfg_cached ''h/g/g'') = None
   \<and> rrd_cache_flush_identifier cfg_cached (env_ok 100) 0 (Some ''h/g/g'') st_one
       = Some (Inl NOT_FOUND, st_one)
   \<and> rrd_flush cfg_cached (env_ok 100) 0 (Some ''h/g/g'') (Some st_one) = Some (success, Some st_one)"
proof -
  have g: "c_avl_get (cache st_one) (rrd_flush_key cfg_cached ''h/g/g'') = None"
    by (simp add: st_one_def c_avl_get_def rrd_flush_key_def cfg_cached_def)
  from C3_flush_unknown_identifier [OF g, of "env_ok 100" 0] g show ?thesis by simp
qed

text \<open>
  The claim as stated fails: with a cache that is not NULL and an identifier without an
  entry, \<^verbatim>\<open>rrd_flush\<close> returns success, not the error.
\<close>

theorem C3_flush_returns_success:
  "c_avl_get (cache st_init) (rrd_flush_key cfg_nocache ''h/cpu/cpu'') = None
   \<and> rrd_flush cfg_nocache (env_ok 0) 0 (Some ''h/cpu/cpu'') (Some st_init)
       = Some (success, Some st_init)
   \<and> rrd_flush cfg_nocache (env_ok 0) 0 (Some ''h/cpu/cpu'') (Some st_init)
       \<noteq> Some (Inl NOT_FOUND, Some st_init)"
  by (simp add: eval_defs)

text \<open>
  C4. When the writer takes the values of the entry of a file name, the entry stays in
  the tree with \<^verbatim>\<open>values\<close> NULL, \<^verbatim>\<open>values_num\<close> zero and \<open>flags = NONE\<close>; its
  \<^verbatim>\<open>last_value\<close> and \<^verbatim>\<open>first_value\<close> are as before, and so are the keys of the tree and the
  queue. The writer gets the values that the entry held.
\<close>

theorem C4_steal_keeps_entry:
  assumes "c_avl_get (cache st) f = Some rc"
  shows "\<exists>st' rc'. rrd_queue_thread_steal f st = Some ((rc_values rc, values_num rc), st')
           \<and> c_avl_get (cache st') f = Some rc'
           \<and> rc_values rc' = None \<and> values_num rc' = 0 \<and> flags rc' = FLAG_NONE
           \<and> last_value rc' = last_value rc \<and> first_value rc' = first_value rc
           \<and> map fst (cache st') = map fst (cache st)
           \<and> queue st' = queue st"
  using assms
  by (simp add: rrd_queue_thread_steal_def c_avl_get_rc_store keys_rc_store values_num_def)

text \<open>
  In the run of C1 the writer takes the values of \<^verbatim>\<open>h/b/b.rrd\<close>.
\<close>

theorem C4_steal_keeps_entry_witness:
  "c_avl_get (cache bug_s4) ''h/b/b.rrd''
     = Some \<lparr>rc_values = Some [''1:0''], first_value = 1, last_value = 1, flags = FLAG_QUEUED\<rparr>
   \<and> (\<exists>st' rc'. rrd_queue_thread_steal ''h/b/b.rrd'' bug_s4 = Some ((Some [''1:0''], 1), st')
         \<and> c_avl_get (cache st') ''h/b/b.rrd'' = Some rc'
         \<and> rc_values rc' = None \<and> values_num rc' = 0 \<and> flags rc' = FLAG_NONE
         \<and> last_value rc' = 1 \<and> first_value rc' = 1
         \<and> map fst (cache st') = [''h/a/a.rrd'', ''h/b/b.rrd''])"
proof -
  have g: "c_avl_get (cache bug_s4) ''h/b/b.rrd''
     = Some \<lparr>rc_values = Some [''1:0''], first_value = 1, last_value = 1, flags = FLAG_QUEUED\<rparr>"
    by (simp add: bug_s1_def bug_s2_def bug_s3_def bug_s4_def eval_defs)
  have k: "map fst (cache bug_s4) = [''h/a/a.rrd'', ''h/b/b.rrd'']"
    by (simp add: bug_s1_def bug_s2_def bug_s3_def bug_s4_def eval_defs)
  from C4_steal_keeps_entry [OF g] g k show ?thesis
    by (auto simp: values_num_def)
qed

text \<open>
  C5, as amended. Consider a successful insert during which no allocation fails, and the
  entry \<open>rc3\<close> as it is after the append. If \<^verbatim>\<open>last_value - first_value >= cache_timeout\<close>
  and \<open>flags\<close> is not \<open>QUEUED\<close>, then a new node with the file name is linked behind the node
  that \<^verbatim>\<open>queue_tail\<close> points to (\<open>pre\<close> are the nodes up to that one: all nodes, unless
  \<^verbatim>\<open>queue_tail\<close> was left behind as in C1). After the call it is the last node of the
  queue, but for the nodes \<open>ys\<close> that the sweep of the same call appends (none when
  \<open>cache_timeout\<close> is 0), and the entry has \<open>flags = QUEUED\<close>. With \<open>cache_timeout = 0\<close> the
  first insert for a file name queues it at once.
\<close>

theorem C5_insert_enqueues_at_back:
  assumes "allocs_ok env" and "cache_ok st" and "queue_upto_tail (queue st) pre suf"
      and "rrd_cache_insert cfg env f v t st = Some (success, st')"
      and "rc3 = rrd_cache_append env
                  (case c_avl_get (cache st) f of Some r \<Rightarrow> r | None \<Rightarrow> rrd_cache_new) v t"
  shows "(cache_timeout cfg \<le> last_value rc3 - first_value rc3 \<and> flags rc3 \<noteq> FLAG_QUEUED \<longrightarrow>
            (\<exists>ys. queue_is (queue st') (pre @ (queue_brk (queue st), f) # ys)
                  \<and> (cache_timeout cfg \<le> 0 \<longrightarrow> ys = []))
            \<and> map_option flags (c_avl_get (cache st') f) = Some FLAG_QUEUED)
       \<and> (cache_timeout cfg = 0 \<and> c_avl_get (cache st) f = None \<longrightarrow>
            queue_is (queue st') (pre @ [(queue_brk (queue st), f)])
            \<and> map_option flags (c_avl_get (cache st') f) = Some FLAG_QUEUED)"
proof (intro conjI impI)
  assume c: "cache_timeout cfg \<le> last_value rc3 - first_value rc3 \<and> flags rc3 \<noteq> FLAG_QUEUED"
  from insert_enqueues [OF assms] c
  show "\<exists>ys. queue_is (queue st') (pre @ (queue_brk (queue st), f) # ys)
                  \<and> (cache_timeout cfg \<le> 0 \<longrightarrow> ys = [])"
    and "map_option flags (c_avl_get (cache st') f) = Some FLAG_QUEUED"
    by auto
next
  assume n: "cache_timeout cfg = 0 \<and> c_avl_get (cache st) f = None"
  from assms(1) have "strdup_value_ok env" by (simp add: allocs_ok_def)
  from first_insert_cond [OF this, of rc3 v t] assms(5) n
  have "cache_timeout cfg \<le> last_value rc3 - first_value rc3" "flags rc3 \<noteq> FLAG_QUEUED"
    by auto
  from insert_enqueues [OF assms this] n
  show "queue_is (queue st') (pre @ [(queue_brk (queue st), f)])"
    and "map_option flags (c_avl_get (cache st') f) = Some FLAG_QUEUED"
    by auto
qed

text \<open>
  With \<open>cache_timeout = 10\<close>, a sample at 110 for an entry that starts at 100; and with
  \<open>cache_timeout = 0\<close>, the first sample for \<^verbatim>\<open>h/a/a.rrd\<close>.
\<close>

theorem C5_insert_enqueues_at_back_witness:
  "rrd_cache_insert cfg_cached (env_ok 110) ''h/f/f.rrd'' ''110:1'' 110 st_one
     = Some (success, snd (the (rrd_cache_insert cfg_cached (env_ok 110) ''h/f/f.rrd'' ''110:1'' 110 st_one)))
   \<and> (\<exists>ys. queue_is
              (queue (snd (the (rrd_cache_insert cfg_cached (env_ok 110) ''h/f/f.rrd'' ''110:1'' 110 st_one))))
              ((0, ''h/f/f.rrd'') # ys))
   \<and> map_option flags
        (c_avl_get
           (cache (snd (the (rrd_cache_insert cfg_cached (env_ok 110) ''h/f/f.rrd'' ''110:1'' 110 st_one))))
           ''h/f/f.rrd'')
       = Some FLAG_QUEUED
   \<and> rrd_cache_insert cfg_nocache (env_ok 1) ''h/a/a.rrd'' ''1:0'' 1 st_init = Some (success, bug_s1)
   \<and> queue_is (queue bug_s1) [(0, ''h/a/a.rrd'')]"
proof -
  let ?st' = "snd (the (rrd_cache_insert cfg_cached (env_ok 110) ''h/f/f.rrd'' ''110:1'' 110 st_one))"
  have a: "allocs_ok (env_ok n)" for n
    by (simp add: allocs_ok_def env_ok_def)
  have c: "cache_ok st_one" "cache_ok st_init"
    by (simp_all add: cache_ok_def st_one_def st_init_def)
  have q: "queue_upto_tail (queue st_one) [] []" "queue_upto_tail (queue st_init) [] []"
    by (simp_all add: queue_upto_tail_def st_one_def st_init_def queue_init_def)
  have e: "rrd_cache_insert cfg_cached (env_ok 110) ''h/f/f.rrd'' ''110:1'' 110 st_one = Some (success, ?st')"
    by (simp add: st_one_def eval_defs)
  have e0: "rrd_cache_insert cfg_nocache (env_ok 1) ''h/a/a.rrd'' ''1:0'' 1 st_init = Some (success, bug_s1)"
    by (simp add: bug_s1_def eval_defs)
  have b: "queue_brk (queue st_one) = 0" "queue_brk (queue st_init) = 0"
    by (simp_all add: st_one_def st_init_def queue_init_def)
  have r: "rrd_cache_append (env_ok 110)
             (case c_avl_get (cache st_one) ''h/f/f.rrd'' of Some r \<Rightarrow> r | None \<Rightarrow> rrd_cache_new)
             ''110:1'' 110
           = \<lparr>rc_values = Some [''100:0'', ''110:1''], first_value = 100, last_value = 110,
              flags = FLAG_NONE\<rparr>"
    by (simp add: st_one_def eval_defs)
  have g0: "c_avl_get (cache st_init) ''h/a/a.rrd'' = None"
    by (simp add: st_init_def c_avl_get_def)
  from C5_insert_enqueues_at_back [OF a c(1) q(1) e refl] r b
  have 1: "(\<exists>ys. queue_is (queue ?st') ((0, ''h/f/f.rrd'') # ys))
        \<and> map_option flags (c_avl_get (cache ?st') ''h/f/f.rrd'') = Some FLAG_QUEUED"
    by (auto simp: cfg_cached_def)
  from C5_insert_enqueues_at_back [OF a c(2) q(2) e0 refl] g0 b
  have 2: "queue_is (queue bug_s1) [(0, ''h/a/a.rrd'')]"
    by (simp add: cfg_nocache_def)
  from e e0 1 2 show ?thesis by simp
qed

text \<open>
  The claim without the proviso fails: when the \<^verbatim>\<open>malloc\<close> of the queue node fails, the
  insert still returns success, with \<open>cache_timeout = 0\<close> and \<open>flags = NONE\<close> after the
  append, but the queue stays empty and the entry is not marked.
\<close>

theorem C5_insert_without_queue_node:
  "rrd_cache_append (env_queue_fails 1) rrd_cache_new ''1:0'' 1
     = \<lparr>rc_values = Some [''1:0''], first_value = 1, last_value = 1, flags = FLAG_NONE\<rparr>
   \<and> cache_timeout cfg_nocache = 0
   \<and> rrd_cache_insert cfg_nocache (env_queue_fails 1) ''h/a/a.rrd'' ''1:0'' 1 st_init
       = Some (success,
               st_init\<lparr>cache := [(''h/a/a.rrd'', \<lparr>rc_values = Some [''1:0''], first_value = 1,
                                                last_value = 1, flags = FLAG_NONE\<rparr>)]\<rparr>)
   \<and> queue_head (queue
         (st_init\<lparr>cache := [(''h/a/a.rrd'', \<lparr>rc_values = Some [''1:0''], first_value = 1,
                                          last_value = 1, flags = FLAG_NONE\<rparr>)]\<rparr>)) = None"
  by (simp add: eval_defs)

text \<open>
  C6, as amended. Let the nodes from \<^verbatim>\<open>queue_head\<close> on be \<open>xs\<close>.
  \<^verbatim>\<open>rrd_queue_move_to_front\<close> ends and returns 0 in every case. Afterwards the nodes from
  the head on are \<open>spec_promote f xs\<close>: the first node with the file name, found by the scan
  from the head, stands at the head and the others keep their order. When no node has the
  name, or the head has it, nothing changes.
\<close>

theorem C6_move_to_front:
  assumes seg: "queue_seg (queue_heap q) (queue_head q) xs None"
  shows "\<exists>q'. rrd_queue_move_to_front f q = Some (success, q')
           \<and> queue_seg (queue_heap q') (queue_head q') (spec_promote f xs) None
           \<and> (f \<notin> snd ` set xs \<longrightarrow> q' = q)
           \<and> (xs \<noteq> [] \<and> snd (hd xs) = f \<longrightarrow> q' = q)"
proof (cases "find (\<lambda>x. snd x = f) xs")
  case None
  then have nf: "f \<notin> snd ` set xs" by (auto simp: find_None_iff)
  from move_absent [OF seg nf] None seg nf show ?thesis
    by (cases xs) (auto simp: spec_promote_def)
next
  case (Some x)
  from find_split [OF Some] obtain pre suf where
    xs: "xs = pre @ x # suf" "snd x = f" "\<forall>y\<in>set pre. snd y \<noteq> f" by blast
  then have xn: "x \<notin> set pre" by auto
  then have rm: "remove1 x xs = pre @ suf" by (simp add: xs(1) remove1_append)
  obtain a where x: "x = (a, f)" using xs(2) by (cases x) auto
  from xs(2) have fin: "f \<in> snd ` set xs" by (auto simp: xs(1))
  show ?thesis
  proof (cases pre rule: rev_cases)
    case Nil
    with seg xs x have "rrd_queue_move_to_front f q = Some (success, q)"
      by (intro move_head [where a = a and xs = suf]) simp
    with Some Nil xs seg show ?thesis by (simp add: spec_promote_def)
  next
    case (snoc pre' y)
    obtain p pf where y: "y = (p, pf)" by (cases y)
    from xs snoc y have nf: "f \<notin> snd ` set pre'" "pf \<noteq> f" by auto
    from seg xs(1) snoc y x
    have "queue_seg (queue_heap q) (queue_head q) (pre' @ (p, pf) # (a, f) # suf) None" by simp
    from move_inner [OF this nf] obtain q' where
      "rrd_queue_move_to_front f q = Some (success, q')"
      "queue_seg (queue_heap q') (queue_head q') ((a, f) # pre' @ (p, pf) # suf) None"
      by blast
    moreover have "snd (hd xs) \<noteq> f" using xs snoc y nf by (cases pre') auto
    ultimately show ?thesis using Some rm snoc y x fin
      by (simp add: spec_promote_def)
  qed
qed

text \<open>
  The queue of \<^verbatim>\<open>h/a/a.rrd\<close> and \<^verbatim>\<open>h/b/b.rrd\<close>: promoting \<^verbatim>\<open>h/b/b.rrd\<close> swaps them, promoting
  \<^verbatim>\<open>h/a/a.rrd\<close> or a name that is not queued changes nothing.
\<close>

theorem C6_move_to_front_witness:
  "queue_seg (queue_heap queue_ab) (queue_head queue_ab) [(0, ''h/a/a.rrd''), (1, ''h/b/b.rrd'')] None
   \<and> (\<exists>q'. rrd_queue_move_to_front ''h/b/b.rrd'' queue_ab = Some (success, q')
          \<and> queue_seg (queue_heap q') (queue_head q') [(1, ''h/b/b.rrd''), (0, ''h/a/a.rrd'')] None)
   \<and> rrd_queue_move_to_front ''h/a/a.rrd'' queue_ab = Some (success, queue_ab)
   \<and> rrd_queue_move_to_front ''h/c/c.rrd'' queue_ab = Some (success, queue_ab)"
proof -
  have s: "queue_seg (queue_heap queue_ab) (queue_head queue_ab)
             [(0, ''h/a/a.rrd''), (1, ''h/b/b.rrd'')] None"
    by (simp add: queue_ab_def)
  from C6_move_to_front [OF s, of "''h/b/b.rrd''"] C6_move_to_front [OF s, of "''h/a/a.rrd''"]
       C6_move_to_front [OF s, of "''h/c/c.rrd''"] s
  show ?thesis by (auto simp: spec_promote_def)
qed

text \<open>
  The claim as stated fails in its last part: the result is the same 0 when a node moved
  (\<^verbatim>\<open>h/b/b.rrd\<close>: the head changes from node 0 to node 1) and when none did (\<^verbatim>\<open>h/a/a.rrd\<close>).
\<close>

theorem C6_status_does_not_tell:
  "rrd_queue_move_to_front ''h/b/b.rrd'' queue_ab \<noteq> None
   \<and> fst (the (rrd_queue_move_to_front ''h/b/b.rrd'' queue_ab)) = success
   \<and> queue_view (snd (the (rrd_queue_move_to_front ''h/b/b.rrd'' queue_ab))) [0, 1]
       = (Some 1, Some 1, [Some \<lparr>filename = ''h/a/a.rrd'', qnext = None\<rparr>,
                            Some \<lparr>filename = ''h/b/b.rrd'', qnext = Some 0\<rparr>])
   \<and> queue_view queue_ab [0, 1]
       = (Some 0, Some 1, [Some \<lparr>filename = ''h/a/a.rrd'', qnext = Some 1\<rparr>,
                            Some \<lparr>filename = ''h/b/b.rrd'', qnext = None\<rparr>])
   \<and> rrd_queue_move_to_front ''h/a/a.rrd'' queue_ab = Some (success, queue_ab)
   \<and> fst (the (rrd_queue_move_to_front ''h/a/a.rrd'' queue_ab))
       = fst (the (rrd_queue_move_to_front ''h/b/b.rrd'' queue_ab))"
  by (simp add: queue_ab_def eval_defs)

text \<open>
  C7, as amended. A sweep with the timeout \<open>-1\<close>, as \<^verbatim>\<open>rrd_shutdown\<close> runs it, in which no
  allocation fails and which meets no entry outside the queue with an allocated, empty
  array of values (its assertion would abort on deleting that), returns. For every entry
  whose \<^verbatim>\<open>first_value\<close> is not more than one second ahead of the clock: if it is not
  \<open>QUEUED\<close> and has values, it is marked \<open>QUEUED\<close> and its file name is queued; if it is not
  \<open>QUEUED\<close> and has no values, it is deleted. The names are queued at the back, behind
  the node that \<^verbatim>\<open>queue_tail\<close> points to (\<open>pre\<close> are the nodes up to that one), each once,
  and only names of entries that had values and were not \<open>QUEUED\<close>; entries that are
  \<open>QUEUED\<close> stay as they are; \<^verbatim>\<open>cache_flush_last\<close> is the time of the sweep. As for
  removing entries: a flush of one identifier and the writer keep the keys of the tree;
  \<^verbatim>\<open>rrd_cache_insert\<close> keeps them up to its call of the sweep, unless its \<^verbatim>\<open>realloc\<close> fails,
  and changes the state after that by the sweep only.
\<close>

theorem C7_sweep_minus_one:
  "(allocs_ok env \<and> cache_ok st \<and> queue_upto_tail (queue st) pre suf
      \<and> no_empty_array (cache st) \<longrightarrow>
    (\<exists>st' ys. rrd_cache_flush env (- 1) st = Some st'
       \<and> rrd_shutdown env st = Some (st', True)
       \<and> queue_upto_tail (queue st') (pre @ ys) (if ys = [] then suf else [])
       \<and> distinct (map snd ys)
       \<and> (\<forall>n\<in>set (map snd ys). \<exists>rc. c_avl_get (cache st) n = Some rc
             \<and> flags rc \<noteq> FLAG_QUEUED \<and> values_num rc > 0)
       \<and> (\<forall>k rc. c_avl_get (cache st) k = Some rc \<and> first_value rc \<le> time_now env + 1 \<longrightarrow>
             (flags rc \<noteq> FLAG_QUEUED \<and> values_num rc > 0 \<longrightarrow>
                k \<in> set (map snd ys)
                \<and> c_avl_get (cache st') k = Some (rc\<lparr>flags := FLAG_QUEUED\<rparr>))
             \<and> (flags rc \<noteq> FLAG_QUEUED \<and> \<not> values_num rc > 0 \<longrightarrow>
                c_avl_get (cache st') k = None))
       \<and> (\<forall>k rc. c_avl_get (cache st) k = Some rc \<and> flags rc = FLAG_QUEUED \<longrightarrow>
             c_avl_get (cache st') k = Some rc)
       \<and> cache_flush_last st' = time_now env))
   \<and> (\<forall>cfg e timeout ident r s2.
         rrd_cache_flush_identifier cfg e timeout (Some ident) st = Some (r, s2) \<longrightarrow>
         map fst (cache s2) = map fst (cache st))
   \<and> (\<forall>f r s2. rrd_queue_thread_steal f st = Some (r, s2) \<longrightarrow>
         map fst (cache s2) = map fst (cache st))
   \<and> (\<forall>cfg e f v t r s2.
         rrd_cache_insert_entry cfg e f v t st = Some (r, s2) \<and> realloc_values_ok e \<longrightarrow>
         fst ` set (cache st) \<subseteq> fst ` set (cache s2))
   \<and> (\<forall>cfg e f v t r s3.
         rrd_cache_insert cfg e f v t st = Some (r, s3) \<longrightarrow>
         (\<exists>r1 s2. rrd_cache_insert_entry cfg e f v t st = Some (r1, s2)
            \<and> (s3 = s2 \<or> rrd_cache_flush e (cache_flush_timeout cfg) s2 = Some s3)))"
proof (intro conjI impI allI)
  assume a: "allocs_ok env \<and> cache_ok st \<and> queue_upto_tail (queue st) pre suf
      \<and> no_empty_array (cache st)"
  then have ok: "allocs_ok env" and c: "cache_ok st"
    and q: "queue_upto_tail (queue st) pre suf" and ne: "no_empty_array (cache st)"
    by auto
  let ?now = "time_now env"
  let ?enq = "\<lambda>kv. flush_queues (- 1) ?now (snd kv)"
  from c have d: "distinct (map fst (cache st))" by (simp add: cache_ok_def)
  from q have tq: "queue_tail_ok (queue st)" by (rule queue_upto_tail_ok)
  from flush_char [OF ok c tq ne, of "- 1"] obtain st' where
    st': "rrd_cache_flush env (- 1) st = Some st'"
      "cache st' = map (flush_mark (- 1) ?now)
                     (filter (\<lambda>kv. \<not> flush_deletes (- 1) ?now (snd kv)) (cache st))"
      "cache_flush_last st' = ?now"
    by blast
  from flush_queue_upto [OF ok q st'(1)] obtain ys where
    ys: "queue_upto_tail (queue st') (pre @ ys) (if ys = [] then suf else [])"
      "map snd ys = map fst (filter ?enq (cache st))"
    by blast
  from d have 1: "distinct (map snd ys)"
    by (simp add: ys(2) distinct_map_filter)
  have 2: "\<forall>n\<in>set (map snd ys). \<exists>rc. c_avl_get (cache st) n = Some rc
             \<and> flags rc \<noteq> FLAG_QUEUED \<and> values_num rc > 0"
  proof
    fix n assume "n \<in> set (map snd ys)"
    with ys(2) obtain kv where kv: "kv \<in> set (cache st)" "?enq kv" "n = fst kv" by auto
    from kv(1) have "(fst kv, snd kv) \<in> set (cache st)" by simp
    from map_of_is_SomeI [OF d this] kv(3) have "c_avl_get (cache st) n = Some (snd kv)"
      by (simp add: c_avl_get_def)
    with kv(2) show "\<exists>rc. c_avl_get (cache st) n = Some rc
             \<and> flags rc \<noteq> FLAG_QUEUED \<and> values_num rc > 0"
      by (simp add: flush_queues_def flush_due_def)
  qed
  have 3: "\<forall>k rc. c_avl_get (cache st) k = Some rc \<and> first_value rc \<le> ?now + 1 \<longrightarrow>
             (flags rc \<noteq> FLAG_QUEUED \<and> values_num rc > 0 \<longrightarrow>
                k \<in> set (map snd ys)
                \<and> c_avl_get (cache st') k = Some (rc\<lparr>flags := FLAG_QUEUED\<rparr>))
             \<and> (flags rc \<noteq> FLAG_QUEUED \<and> \<not> values_num rc > 0 \<longrightarrow>
                c_avl_get (cache st') k = None)"
  proof (intro allI impI conjI)
    fix k rc
    assume g: "c_avl_get (cache st) k = Some rc \<and> first_value rc \<le> ?now + 1"
       and f: "flags rc \<noteq> FLAG_QUEUED \<and> values_num rc > 0"
    then have e: "flush_queues (- 1) ?now rc" and nd: "\<not> flush_deletes (- 1) ?now rc"
      by (simp_all add: flush_queues_def flush_deletes_def flush_due_def)
    from g have "(k, rc) \<in> set (cache st)" by (auto simp: c_avl_get_def dest: map_of_SomeD)
    with e show "k \<in> set (map snd ys)" by (force simp: ys(2))
    from g c_avl_get_flushed [OF _ nd, of "cache st" k] st'(2) e
    show "c_avl_get (cache st') k = Some (rc\<lparr>flags := FLAG_QUEUED\<rparr>)"
      by (simp add: flush_mark_def)
  next
    fix k rc
    assume g: "c_avl_get (cache st) k = Some rc \<and> first_value rc \<le> ?now + 1"
       and f: "flags rc \<noteq> FLAG_QUEUED \<and> \<not> values_num rc > 0"
    then have "flush_deletes (- 1) ?now rc"
      by (simp add: flush_deletes_def flush_due_def)
    from c_avl_get_flushed_del [OF d _ this, of k] g st'(2)
    show "c_avl_get (cache st') k = None" by simp
  qed
  have 4: "\<forall>k rc. c_avl_get (cache st) k = Some rc \<and> flags rc = FLAG_QUEUED \<longrightarrow>
             c_avl_get (cache st') k = Some rc"
  proof (intro allI impI)
    fix k rc
    assume g: "c_avl_get (cache st) k = Some rc \<and> flags rc = FLAG_QUEUED"
    then have nd: "\<not> flush_deletes (- 1) ?now rc" and ne: "\<not> flush_queues (- 1) ?now rc"
      by (simp_all add: flush_queues_def flush_deletes_def flush_due_def)
    from g c_avl_get_flushed [OF _ nd, of "cache st" k] st'(2) ne
    show "c_avl_get (cache st') k = Some rc"
      by (simp add: flush_mark_def)
  qed
  from st'(1) have sd: "rrd_shutdown env st = Some (st', True)"
    by (simp add: rrd_shutdown_def)
  show "\<exists>st' ys. rrd_cache_flush env (- 1) st = Some st'
       \<and> rrd_shutdown env st = Some (st', True)
       \<and> queue_upto_tail (queue st') (pre @ ys) (if ys = [] then suf else [])
       \<and> distinct (map snd ys)
       \<and> (\<forall>n\<in>set (map snd ys). \<exists>rc. c_avl_get (cache st) n = Some rc
             \<and> flags rc \<noteq> FLAG_QUEUED \<and> values_num rc > 0)
       \<and> (\<forall>k rc. c_avl_get (cache st) k = Some rc \<and> first_value rc \<le> time_now env + 1 \<longrightarrow>
             (flags rc \<noteq> FLAG_QUEUED \<and> values_num rc > 0 \<longrightarrow>
                k \<in> set (map snd ys)
                \<and> c_avl_get (cache st') k = Some (rc\<lparr>flags := FLAG_QUEUED\<rparr>))
             \<and> (flags rc \<noteq> FLAG_QUEUED \<and> \<not> values_num rc > 0 \<longrightarrow>
                c_avl_get (cache st') k = None))
       \<and> (\<forall>k rc. c_avl_get (cache st) k = Some rc \<and> flags rc = FLAG_QUEUED \<longrightarrow>
             c_avl_get (cache st') k = Some rc)
       \<and> cache_flush_last st' = time_now env"
    by (rule exI [of _ st'], rule exI [of _ ys], intro conjI) (rule st'(1) sd ys(1) 1 2 3 4 st'(3))+
next
  fix cfg e timeout ident r s2
  assume "rrd_cache_flush_identifier cfg e timeout (Some ident) st = Some (r, s2)"
  then show "map fst (cache s2) = map fst (cache st)" by (rule flush_identifier_keys)
next
  fix f r s2
  assume "rrd_queue_thread_steal f st = Some (r, s2)"
  then show "map fst (cache s2) = map fst (cache st)" by (rule steal_keys)
next
  fix cfg e f v t r s2
  assume "rrd_cache_insert_entry cfg e f v t st = Some (r, s2) \<and> realloc_values_ok e"
  then show "fst ` set (cache st) \<subseteq> fst ` set (cache s2)"
    using insert_entry_keys by blast
next
  fix cfg e f v t r s3
  assume "rrd_cache_insert cfg e f v t st = Some (r, s3)"
  then show "\<exists>r1 s2. rrd_cache_insert_entry cfg e f v t st = Some (r1, s2)
            \<and> (s3 = s2 \<or> rrd_cache_flush e (cache_flush_timeout cfg) s2 = Some s3)"
    by (rule insert_is_entry_then_flush)
qed

text \<open>
  Two entries, neither queued and neither dated ahead: \<^verbatim>\<open>h/a/a.rrd\<close> with a value is
  queued and marked, \<^verbatim>\<open>h/b/b.rrd\<close> without values is deleted.
\<close>

theorem C7_sweep_minus_one_witness:
  "\<exists>st' ys. rrd_cache_flush (env_ok 200) (- 1) st_two = Some st'
       \<and> rrd_shutdown (env_ok 200) st_two = Some (st', True)
       \<and> queue_upto_tail (queue st') ys []
       \<and> map snd ys = [''h/a/a.rrd'']
       \<and> c_avl_get (cache st') ''h/a/a.rrd''
           = Some \<lparr>rc_values = Some [''100:0''], first_value = 100, last_value = 100,
                   flags = FLAG_QUEUED\<rparr>
       \<and> c_avl_get (cache st') ''h/b/b.rrd'' = None
       \<and> cache_flush_last st' = 200"
proof -
  let ?a = "\<lparr>rc_values = Some [''100:0''], first_value = 100, last_value = 100,
             flags = FLAG_NONE\<rparr>"
  let ?b = "\<lparr>rc_values = None, first_value = 50, last_value = 60, flags = FLAG_NONE\<rparr>"
  have h: "allocs_ok (env_ok 200) \<and> cache_ok st_two \<and> queue_upto_tail (queue st_two) [] []
      \<and> no_empty_array (cache st_two)"
    by (simp add: allocs_ok_def env_ok_def cache_ok_def st_two_def queue_upto_tail_def
          queue_init_def no_empty_array_def)
  have g: "c_avl_get (cache st_two) ''h/a/a.rrd'' = Some ?a"
          "c_avl_get (cache st_two) ''h/b/b.rrd'' = Some ?b"
    by (simp_all add: st_two_def c_avl_get_def)
  have n: "\<And>n rc. c_avl_get (cache st_two) n = Some rc \<and> 0 < values_num rc \<Longrightarrow> n = ''h/a/a.rrd''"
    by (auto simp: st_two_def c_avl_get_def values_num_def split: if_splits)
  from conjunct1 [OF C7_sweep_minus_one [of "env_ok 200" st_two "[]" "[]"], rule_format, OF h]
  obtain st' ys where r: "rrd_cache_flush (env_ok 200) (- 1) st_two = Some st'"
      "rrd_shutdown (env_ok 200) st_two = Some (st', True)"
      "queue_upto_tail (queue st') ([] @ ys) (if ys = [] then [] else [])"
      "distinct (map snd ys)"
      "\<forall>n\<in>set (map snd ys). \<exists>rc. c_avl_get (cache st_two) n = Some rc
             \<and> flags rc \<noteq> FLAG_QUEUED \<and> values_num rc > 0"
      "\<forall>k rc. c_avl_get (cache st_two) k = Some rc \<and> first_value rc \<le> time_now (env_ok 200) + 1 \<longrightarrow>
             (flags rc \<noteq> FLAG_QUEUED \<and> values_num rc > 0 \<longrightarrow>
                k \<in> set (map snd ys)
                \<and> c_avl_get (cache st') k = Some (rc\<lparr>flags := FLAG_QUEUED\<rparr>))
             \<and> (flags rc \<noteq> FLAG_QUEUED \<and> \<not> values_num rc > 0 \<longrightarrow>
                c_avl_get (cache st') k = None)"
      "cache_flush_last st' = time_now (env_ok 200)"
    by blast
  from r(6) [rule_format, of "''h/a/a.rrd''" ?a] g(1)
  have a: "''h/a/a.rrd'' \<in> set (map snd ys)"
      "c_avl_get (cache st') ''h/a/a.rrd'' = Some (?a\<lparr>flags := FLAG_QUEUED\<rparr>)"
    by (simp_all add: env_ok_def values_num_def)
  from r(6) [rule_format, of "''h/b/b.rrd''" ?b] g(2)
  have b: "c_avl_get (cache st') ''h/b/b.rrd'' = None"
    by (simp add: env_ok_def values_num_def)
  from r(5) n have "set (map snd ys) \<subseteq> {''h/a/a.rrd''}" by blast
  with a(1) have "set (map snd ys) = {''h/a/a.rrd''}" by blast
  with r(4) have "map snd ys = [''h/a/a.rrd'']"
    by (rule distinct_set_singleton)
  with r a b show ?thesis
    by (intro exI [of _ st'] exI [of _ ys]) (simp add: env_ok_def)
qed

text \<open>
  The claim as stated fails: an insert whose \<^verbatim>\<open>realloc\<close> fails removes the entry of its
  file name, and the call does not reach its sweep.
\<close>

theorem C7_insert_abort_removes_entry:
  "c_avl_get (cache st_one) ''h/f/f.rrd'' \<noteq> None
   \<and> rrd_cache_insert cfg_cached (env_realloc_fails 101) ''h/f/f.rrd'' ''101:1'' 101 st_one
       = Some (Inl ALLOC_FAILED, st_one\<lparr>cache := []\<rparr>)
   \<and> c_avl_get (cache (st_one\<lparr>cache := []\<rparr>)) ''h/f/f.rrd'' = None"
  by (simp add: st_one_def eval_defs)

text \<open>
  Apart from the claim: the test of the age, \<^verbatim>\<open>(now - rc->first_value) < timeout\<close>, also
  applies to the timeout \<open>-1\<close>, so that the sweep at time 100 passes over an entry that has
  values, is not queued and starts at time 200. Such an entry is not written at the
  shutdown.
\<close>

lemma sweep_passes_over_entry_dated_ahead:
  "rrd_cache_flush (env_ok 100) (- 1) st_future = Some (st_future\<lparr>cache_flush_last := 100\<rparr>)
   \<and> cache st_future
       = [(''h/g/g.rrd'', \<lparr>rc_values = Some [''200:0''], first_value = 200, last_value = 200,
                           flags = FLAG_NONE\<rparr>)]"
  by (simp add: st_future_def eval_defs)

text \<open>
  C8. With the 512-byte buffer of \<^verbatim>\<open>rrd_write\<close>, the encoder returns the concatenation
  \<open>{datadir/}host/plugin{-plugin_instance}/type{-type_instance}.rrd\<close>, where an empty
  instance contributes nothing and a non-empty one is joined by a single \<open>-\<close>; it fails
  exactly when that text and its terminating NUL do not fit into 512 bytes, the case in
  which one of the formatting steps is cut. The result depends on the five name fields
  only: samples that agree on them get the same file name.
\<close>

theorem C8_filename_encoding:
  "value_list_to_filename cfg 512 vl =
     (if length (spec_filename cfg vl) < 512 then Inr (spec_filename cfg vl)
      else Inl ENCODE_OVERFLOW)
   \<and> (vl_host vl = vl_host vl' \<and> vl_plugin vl = vl_plugin vl'
        \<and> vl_plugin_instance vl = vl_plugin_instance vl' \<and> vl_type vl = vl_type vl'
        \<and> vl_type_instance vl = vl_type_instance vl'
      \<longrightarrow> value_list_to_filename cfg 512 vl = value_list_to_filename cfg 512 vl')"
proof -
  have "vl_host vl = vl_host vl' \<and> vl_plugin vl = vl_plugin vl'
        \<and> vl_plugin_instance vl = vl_plugin_instance vl' \<and> vl_type vl = vl_type vl'
        \<and> vl_type_instance vl = vl_type_instance vl'
      \<longrightarrow> spec_filename cfg vl = spec_filename cfg vl'"
    by (simp add: spec_filename_def)
  then show ?thesis
    by (auto simp: value_list_to_filename_eq)
qed

text \<open>
  The data directory \<^verbatim>\<open>/var/lib/rrd\<close>, host \<^verbatim>\<open>h\<close>, plugin and type \<^verbatim>\<open>cpu\<close>, type instance
  \<^verbatim>\<open>0\<close>, at two times.
\<close>

theorem C8_filename_encoding_witness:
  "value_list_to_filename
     \<lparr>datadir = Some ''/var/lib/rrd'', cache_timeout = 10, cache_flush_timeout = 100,
      stepsize = 0, heartbeat = 0\<rparr> 512
     \<lparr>vl_time = 100, vl_host = ''h'', vl_plugin = ''cpu'', vl_plugin_instance = '''',
      vl_type = ''cpu'', vl_type_instance = ''0''\<rparr>
   = Inr ''/var/lib/rrd/h/cpu/cpu-0.rrd''
   \<and> value_list_to_filename
     \<lparr>datadir = Some ''/var/lib/rrd'', cache_timeout = 10, cache_flush_timeout = 100,
      stepsize = 0, heartbeat = 0\<rparr> 512
     \<lparr>vl_time = 101, vl_host = ''h'', vl_plugin = ''cpu'', vl_plugin_instance = '''',
      vl_type = ''cpu'', vl_type_instance = ''0''\<rparr>
   = Inr ''/var/lib/rrd/h/cpu/cpu-0.rrd''"
proof -
  let ?cfg = "\<lparr>datadir = Some ''/var/lib/rrd'', cache_timeout = 10,
                cache_flush_timeout = 100, stepsize = 0, heartbeat = 0\<rparr>"
  let ?vl = "\<lparr>vl_time = 100, vl_host = ''h'', vl_plugin = ''cpu'', vl_plugin_instance = '''',
               vl_type = ''cpu'', vl_type_instance = ''0''\<rparr>"
  let ?vl' = "\<lparr>vl_time = 101, vl_host = ''h'', vl_plugin = ''cpu'', vl_plugin_instance = '''',
                vl_type = ''cpu'', vl_type_instance = ''0''\<rparr>"
  note t = C8_filename_encoding [of ?cfg ?vl ?vl']
  have n: "spec_filename ?cfg ?vl = ''/var/lib/rrd/h/cpu/cpu-0.rrd''"
    by (simp add: spec_filename_def)
  from conjunct1 [OF t] n
  have 1: "value_list_to_filename ?cfg 512 ?vl = Inr ''/var/lib/rrd/h/cpu/cpu-0.rrd''"
    by simp
  from conjunct2 [OF t]
  have "value_list_to_filename ?cfg 512 ?vl = value_list_to_filename ?cfg 512 ?vl'"
    by simp
  with 1 show ?thesis by simp
qed



text \<open>
  C10. The entry allocated for a file name without one starts with \<^verbatim>\<open>last_value = 0\<close>, and
  the first insert for such a file name with a time stamp \<open>t \<le> 0\<close> is rejected by the
  comparison with that 0, as out of order; no entry is added and nothing else changes.
  (When not even the entry can be allocated, the call fails before the comparison, with
  the same return value and the same state.)
\<close>

theorem C10_first_insert_rejected:
  assumes "c_avl_get (cache st) f = None" and "t \<le> 0"
  shows "last_value rrd_cache_new = 0
       \<and> rrd_cache_insert cfg env f v t st
           = Some (Inl (if malloc_rc_ok env then OUT_OF_ORDER else ALLOC_FAILED), st)"
  using assms
  by (simp add: rrd_cache_insert_def rrd_cache_insert_entry_def rrd_cache_new_def Let_def)

text \<open>
  The first sample for \<^verbatim>\<open>h/f/f.rrd\<close>, at time 0.
\<close>

theorem C10_first_insert_rejected_witness:
  "c_avl_get (cache st_init) ''h/f/f.rrd'' = None \<and> (0::int) \<le> 0
   \<and> rrd_cache_insert cfg_nocache (env_ok 5) ''h/f/f.rrd'' ''0:1'' 0 st_init
       = Some (Inl OUT_OF_ORDER, st_init)"
proof -
  have g: "c_avl_get (cache st_init) ''h/f/f.rrd'' = None"
    by (simp add: st_init_def c_avl_get_def)
  from C10_first_insert_rejected [OF g, of 0 cfg_nocache "env_ok 5" "''0:1''"] g
  show ?thesis by (simp add: env_ok_def)
qed

end
